theory Spec2Isabelle
  imports Complex_Main "HOL-Library.Multiset"
begin

section \<open>The object store\<close>

text \<open>
  Agents, their position arrays and Python lists are mutable objects that the optimizer
  shares by reference, so they live in a store and are named by addresses.  A numpy
  array of shape (n_variables, n_dimensions) is a list of rows of reals; Python floats
  are read as reals (no NaN, no rounding).  Every address holds a value; \<open>nxt\<close> is the
  first address that no object has been allocated at, and allocation hands it out.
\<close>

type_synonym addr = nat

type_synonym array = "real list list"

record agent =
  position :: addr
  fit :: real
  lb :: "real list"
  ub :: "real list"
  ts :: int
  agent_n_dimensions :: int

record heap =
  arrays :: "addr \<Rightarrow> array"
  objs :: "addr \<Rightarrow> agent"
  pylists :: "addr \<Rightarrow> addr list"
  nxt :: addr

record space =
  n_agents :: int
  n_variables :: int
  n_dimensions :: int
  n_iterations :: int
  agents :: addr
  best_agent :: addr
  space_lb :: "real list"
  space_ub :: "real list"

text \<open>\<open>agent.fit = v\<close> on the agent object at address \<open>a\<close>.\<close>

definition set_fit :: "addr \<Rightarrow> real \<Rightarrow> heap \<Rightarrow> heap" where
  "set_fit a v h = h\<lparr>objs := (objs h)(a := (objs h a)\<lparr>fit := v\<rparr>)\<rparr>"

text \<open>\<open>agent.position = p\<close>: the attribute is bound to the array object at \<open>p\<close>.\<close>

definition set_position :: "addr \<Rightarrow> addr \<Rightarrow> heap \<Rightarrow> heap" where
  "set_position a p h = h\<lparr>objs := (objs h)(a := (objs h a)\<lparr>position := p\<rparr>)\<rparr>"

definition set_ts :: "addr \<Rightarrow> int \<Rightarrow> heap \<Rightarrow> heap" where
  "set_ts a t h = h\<lparr>objs := (objs h)(a := (objs h a)\<lparr>ts := t\<rparr>)\<rparr>"

text \<open>\<open>copy.deepcopy\<close> of the array at \<open>p\<close>: a new array object with the same contents.\<close>

definition deepcopy_array :: "addr \<Rightarrow> heap \<Rightarrow> addr \<times> heap" where
  "deepcopy_array p h =
     (nxt h, h\<lparr>arrays := (arrays h)(nxt h := arrays h p), nxt := Suc (nxt h)\<rparr>)"

section \<open>Optimizer.evaluate\<close>

text \<open>
  The body of the loop of \<open>Optimizer.evaluate\<close> for one agent.  \<open>function\<close> is the
  objective, \<open>now\<close> the reading of \<open>int(time.time())\<close> taken if the agent improves on
  the best agent, \<open>best\<close> the address of \<open>space.best_agent\<close>.  The assignments are
  made one after the other, as the source makes them.
\<close>

definition evaluate_agent :: "(array \<Rightarrow> real) \<Rightarrow> int \<Rightarrow> addr \<Rightarrow> heap \<Rightarrow> addr \<Rightarrow> heap" where
  "evaluate_agent function now best h agent =
     (let h1 = set_fit agent (function (arrays h (position (objs h agent)))) h in
      if fit (objs h1 agent) < fit (objs h1 best) then
        (let (p, h2) = deepcopy_array (position (objs h1 agent)) h1;
             h3 = set_position best p h2;
             h4 = set_fit best (fit (objs h3 agent)) h3
         in set_ts best now h4)
      else h1)"

text \<open>
  \<open>for agent in space.agents\<close>: the loop, over the contents of the list object.
  \<open>clock i\<close> is the time read while the agent of index \<open>i\<close> is processed.
\<close>

fun evaluate_loop ::
  "(array \<Rightarrow> real) \<Rightarrow> (nat \<Rightarrow> int) \<Rightarrow> addr \<Rightarrow> nat \<Rightarrow> addr list \<Rightarrow> heap \<Rightarrow> heap" where
  "evaluate_loop function clock best i [] h = h"
| "evaluate_loop function clock best i (agent # rest) h =
     evaluate_loop function clock best (Suc i) rest
       (evaluate_agent function (clock i) best h agent)"

definition evaluate :: "space \<Rightarrow> (array \<Rightarrow> real) \<Rightarrow> (nat \<Rightarrow> int) \<Rightarrow> heap \<Rightarrow> heap" where
  "evaluate space function clock h =
     evaluate_loop function clock (best_agent space) 0 (pylists h (agents space)) h"

text \<open>The value \<open>function(agent.position)\<close> of the agent at \<open>a\<close> in the store \<open>h\<close>.\<close>

definition fitness_of :: "(array \<Rightarrow> real) \<Rightarrow> heap \<Rightarrow> addr \<Rightarrow> real" where
  "fitness_of function h a = function (arrays h (position (objs h a)))"


subsection \<open>A small space to run the definitions on\<close>

text \<open>
  The sphere benchmark of the example script, and a space of two agents at \<open>[[3]]\<close> and
  \<open>[[1]]\<close> with a best agent of its own at \<open>[[5]]\<close>, all of fitness 100 so far.
\<close>

definition sphere :: "array \<Rightarrow> real" where
  "sphere p = sum_list (map (\<lambda>x. x * x) (concat p))"

definition example_agent :: "addr \<Rightarrow> agent" where
  "example_agent p =
     \<lparr>position = p, fit = 100, lb = [-10], ub = [10], ts = 0, agent_n_dimensions = 1\<rparr>"

definition example_heap :: heap where
  "example_heap =
     \<lparr>arrays = (\<lambda>_. [])(0 := [[3]], 1 := [[1]], 2 := [[5]]),
      objs = (\<lambda>_. example_agent 0)(3 := example_agent 0, 4 := example_agent 1, 5 := example_agent 2),
      pylists = (\<lambda>_. [])(6 := [3, 4]),
      nxt = 7\<rparr>"

definition example_space :: space where
  "example_space =
     \<lparr>n_agents = 2, n_variables = 1, n_dimensions = 1, n_iterations = 1,
      agents = 6, best_agent = 5, space_lb = [-10], space_ub = [10]\<rparr>"

section \<open>Python values, exceptions and instances\<close>

text \<open>
  The values that reach the optimizers as hyperparameters.  A float is a real number,
  one of the two infinities, or NaN.  A dictionary is the list of its items in insertion
  order.  Exceptions are values: \<open>E_TypeError\<close> and
  \<open>E_ValueError\<close> are the classes of \<open>opytimizer.utils.exception\<close> (written
  \<open>e.TypeError\<close> and \<open>e.ValueError\<close> in the source), the others are Python's own.
\<close>

datatype pyval =
    PyNone
  | PyBool bool
  | PyInt int
  | PyFloat real
  | PyNaN
  | PyInf
  | PyNegInf
  | PyStr string
  | PyList "pyval list"
  | PyDict "(pyval \<times> pyval) list"

datatype error =
    E_TypeError
  | E_ValueError
  | TypeError
  | ValueError
  | AttributeError
  | IndexError

text \<open>A raise ends the computation; otherwise the next statement runs on the result.\<close>

definition and_then :: "error + 'a \<Rightarrow> ('a \<Rightarrow> error + 'b) \<Rightarrow> error + 'b" where
  "and_then m k = (case m of Inl e \<Rightarrow> Inl e | Inr x \<Rightarrow> k x)"

datatype pyclass = Optimizer | EP | ES

text \<open>
  An instance is its class and its \<open>__dict__\<close>.  The names each class body defines, and
  the order in which Python looks the classes up:
\<close>

record pyobj =
  klass :: pyclass
  attrs :: "string \<Rightarrow> pyval option"

fun class_name :: "pyclass \<Rightarrow> string" where
  "class_name Optimizer = ''Optimizer''"
| "class_name EP = ''EP''"
| "class_name ES = ''ES''"

fun class_attributes :: "pyclass \<Rightarrow> string list" where
  "class_attributes Optimizer =
     [''__init__'', ''algorithm'', ''built'', ''params'', ''build'', ''compile'',
      ''evaluate'', ''update'']"
| "class_attributes EP =
     [''__init__'', ''bout_size'', ''clip_ratio'', ''_mutate_parent'', ''_update_strategy'',
      ''update'', ''run'']"
| "class_attributes ES = [''__init__'']"

fun mro :: "pyclass \<Rightarrow> pyclass list" where
  "mro Optimizer = [Optimizer]"
| "mro EP = [EP, Optimizer]"
| "mro ES = [ES, Optimizer]"

definition has_class_attribute :: "pyclass \<Rightarrow> string \<Rightarrow> bool" where
  "has_class_attribute c name = (\<exists>k\<in>set (mro c). name \<in> set (class_attributes k))"

definition new_object :: "pyclass \<Rightarrow> pyobj" where
  "new_object c = \<lparr>klass = c, attrs = Map.empty\<rparr>"

text \<open>
  \<open>self.name(args)\<close> for a name that no class of the instance defines: the lookup raises
  \<open>AttributeError\<close>, unless the instance's own dictionary has the name, and then the
  value found there (a \<open>pyval\<close>) is not callable.  Either way the arguments are not used.
\<close>

definition call_undefined_method :: "pyobj \<Rightarrow> string \<Rightarrow> 'args \<Rightarrow> error + 'a" where
  "call_undefined_method self name args =
     (case attrs self name of None \<Rightarrow> Inl AttributeError | Some v \<Rightarrow> Inl TypeError)"

text \<open>\<open>self._name\<close>: a read of a backing field.\<close>

definition read_attr :: "pyobj \<Rightarrow> string \<Rightarrow> error + pyval" where
  "read_attr self name =
     (case attrs self name of None \<Rightarrow> Inl AttributeError | Some v \<Rightarrow> Inr v)"

text \<open>\<open>self._name = v\<close>: a write of a backing field.\<close>

definition write_attr :: "pyobj \<Rightarrow> string \<Rightarrow> pyval \<Rightarrow> pyobj" where
  "write_attr self name v = self\<lparr>attrs := (attrs self)(name \<mapsto> v)\<rparr>"

text \<open>\<open>bool(v)\<close>, and the \<open>isinstance\<close> tests of the setters (a \<open>bool\<close> is an \<open>int\<close>).\<close>

fun truthy :: "pyval \<Rightarrow> bool" where
  "truthy PyNone = False"
| "truthy (PyBool b) = b"
| "truthy (PyInt i) = (i \<noteq> 0)"
| "truthy (PyFloat x) = (x \<noteq> 0)"
| "truthy PyNaN = True"
| "truthy PyInf = True"
| "truthy PyNegInf = True"
| "truthy (PyStr s) = (s \<noteq> [])"
| "truthy (PyList xs) = (xs \<noteq> [])"
| "truthy (PyDict kvs) = (kvs \<noteq> [])"

fun isinstance_str :: "pyval \<Rightarrow> bool" where
  "isinstance_str (PyStr s) = True"
| "isinstance_str v = False"

fun isinstance_bool :: "pyval \<Rightarrow> bool" where
  "isinstance_bool (PyBool b) = True"
| "isinstance_bool v = False"

fun isinstance_dict :: "pyval \<Rightarrow> bool" where
  "isinstance_dict (PyDict kvs) = True"
| "isinstance_dict v = False"

fun isinstance_float_int :: "pyval \<Rightarrow> bool" where
  "isinstance_float_int (PyFloat x) = True"
| "isinstance_float_int PyNaN = True"
| "isinstance_float_int PyInf = True"
| "isinstance_float_int PyNegInf = True"
| "isinstance_float_int (PyInt i) = True"
| "isinstance_float_int (PyBool b) = True"
| "isinstance_float_int v = False"

text \<open>The number a finite float, an int or a bool stands for.\<close>

fun number :: "pyval \<Rightarrow> real" where
  "number (PyFloat x) = x"
| "number (PyInt i) = of_int i"
| "number (PyBool b) = (if b then 1 else 0)"
| "number v = 0"

text \<open>
  The comparisons \<open>v < c\<close> and \<open>v > c\<close> of a float, an int or a bool with a number.
  Both are false of NaN.
\<close>

fun below :: "pyval \<Rightarrow> real \<Rightarrow> bool" where
  "below (PyFloat x) c = (x < c)"
| "below (PyInt i) c = (of_int i < c)"
| "below (PyBool b) c = ((if b then 1 else 0) < c)"
| "below PyNegInf c = True"
| "below v c = False"

fun above :: "pyval \<Rightarrow> real \<Rightarrow> bool" where
  "above (PyFloat x) c = (c < x)"
| "above (PyInt i) c = (c < of_int i)"
| "above (PyBool b) c = (c < (if b then 1 else 0))"
| "above PyInf c = True"
| "above v c = False"

section \<open>Optimizer: properties, construction and build\<close>

definition algorithm :: "pyobj \<Rightarrow> error + pyval" where
  "algorithm self = read_attr self ''_algorithm''"

definition algorithm_setter :: "pyobj \<Rightarrow> pyval \<Rightarrow> error + pyobj" where
  "algorithm_setter self v =
     (if \<not> isinstance_str v then Inl E_TypeError
      else Inr (write_attr self ''_algorithm'' v))"

definition built :: "pyobj \<Rightarrow> error + pyval" where
  "built self = read_attr self ''_built''"

definition built_setter :: "pyobj \<Rightarrow> pyval \<Rightarrow> error + pyobj" where
  "built_setter self v =
     (if \<not> isinstance_bool v then Inl E_TypeError
      else Inr (write_attr self ''_built'' v))"

definition params :: "pyobj \<Rightarrow> error + pyval" where
  "params self = read_attr self ''_params''"

definition params_setter :: "pyobj \<Rightarrow> pyval \<Rightarrow> error + pyobj" where
  "params_setter self v =
     (if \<not> isinstance_dict v then Inl E_TypeError
      else Inr (write_attr self ''_params'' v))"

section \<open>EP: the validated hyperparameters\<close>

definition bout_size :: "pyobj \<Rightarrow> error + pyval" where
  "bout_size self = read_attr self ''_bout_size''"

definition bout_size_setter :: "pyobj \<Rightarrow> pyval \<Rightarrow> error + pyobj" where
  "bout_size_setter self v =
     (if \<not> isinstance_float_int v then Inl E_TypeError
      else if below v 0 \<or> above v 1 then Inl E_ValueError
      else Inr (write_attr self ''_bout_size'' v))"

definition clip_ratio :: "pyobj \<Rightarrow> error + pyval" where
  "clip_ratio self = read_attr self ''_clip_ratio''"

definition clip_ratio_setter :: "pyobj \<Rightarrow> pyval \<Rightarrow> error + pyobj" where
  "clip_ratio_setter self v =
     (if \<not> isinstance_float_int v then Inl E_TypeError
      else if below v 0 \<or> above v 1 then Inl E_ValueError
      else Inr (write_attr self ''_clip_ratio'' v))"

section \<open>setattr and build\<close>

text \<open>
  The attributes of a dictionary given as \<open>__dict__\<close>: its items under string keys.
\<close>

definition dict_attrs :: "(pyval \<times> pyval) list \<Rightarrow> string \<Rightarrow> pyval option" where
  "dict_attrs kvs name = map_of kvs (PyStr name)"

text \<open>
  Python's \<open>setattr(self, k, v)\<close>.  A name that is not a string is a \<open>TypeError\<close>.  A
  property of the instance's class is a data descriptor and wins over the instance's
  dictionary: its setter runs.  \<open>object\<close> itself treats three names specially:
  \<open>__class__\<close> takes only a class (no \<open>pyval\<close> is one), \<open>__dict__\<close> takes only a
  dictionary, which becomes the instance's dictionary, and \<open>__weakref__\<close> cannot be
  written.  Every other name is stored in the instance's dictionary.
\<close>

definition setattr :: "pyobj \<Rightarrow> pyval \<Rightarrow> pyval \<Rightarrow> error + pyobj" where
  "setattr self k v =
     (case k of
        PyStr name \<Rightarrow>
          if name = ''algorithm'' then algorithm_setter self v
          else if name = ''built'' then built_setter self v
          else if name = ''params'' then params_setter self v
          else if klass self = EP \<and> name = ''bout_size'' then bout_size_setter self v
          else if klass self = EP \<and> name = ''clip_ratio'' then clip_ratio_setter self v
          else if name = ''__class__'' then Inl TypeError
          else if name = ''__weakref__'' then Inl AttributeError
          else if name = ''__dict__'' then
            (case v of PyDict d \<Rightarrow> Inr (self\<lparr>attrs := dict_attrs d\<rparr>) | _ \<Rightarrow> Inl TypeError)
          else Inr (write_attr self name v)
      | _ \<Rightarrow> Inl TypeError)"

text \<open>\<open>params.items()\<close>: only a dictionary has the method.\<close>

fun items :: "pyval \<Rightarrow> error + (pyval \<times> pyval) list" where
  "items (PyDict kvs) = Inr kvs"
| "items v = Inl AttributeError"

text \<open>\<open>for k, v in params.items(): setattr(self, k, v)\<close>\<close>

fun setattr_items :: "pyobj \<Rightarrow> (pyval \<times> pyval) list \<Rightarrow> error + pyobj" where
  "setattr_items self [] = Inr self"
| "setattr_items self ((k, v) # rest) =
     (case setattr self k v of Inl e \<Rightarrow> Inl e | Inr s \<Rightarrow> setattr_items s rest)"

text \<open>
  \<open>Optimizer.build\<close>.  The arguments of the final \<open>logger.debug\<close> call are evaluated
  before the call, so both getters run.
\<close>

definition build :: "pyobj \<Rightarrow> pyval \<Rightarrow> error + pyobj" where
  "build self ps =
     and_then
       (if truthy ps then
          and_then (params_setter self ps) (\<lambda>s1.
          and_then (items ps) (\<lambda>kvs. setattr_items s1 kvs))
        else Inr self) (\<lambda>s2.
     and_then (built_setter s2 (PyBool True)) (\<lambda>s3.
     and_then (algorithm s3) (\<lambda>_.
     and_then (built s3) (\<lambda>_. Inr s3))))"

text \<open>
  \<open>Optimizer.__init__(self)\<close>; \<open>args\<close> are the positional arguments a caller passes
  after \<open>self\<close>.  The method takes none, so any is a \<open>TypeError\<close> of the call.
\<close>

definition Optimizer_init :: "pyobj \<Rightarrow> pyval list \<Rightarrow> error + pyobj" where
  "Optimizer_init self args =
     (if args \<noteq> [] then Inl TypeError
      else
        and_then (algorithm_setter self (PyStr (class_name (klass self)))) (\<lambda>s1.
        and_then (params_setter s1 (PyDict [])) (\<lambda>s2.
        built_setter s2 (PyBool False))))"

text \<open>\<open>EP.__init__(self, params=None)\<close>\<close>

definition EP_init :: "pyobj \<Rightarrow> pyval \<Rightarrow> error + pyobj" where
  "EP_init self ps =
     and_then (Optimizer_init self []) (\<lambda>s0.
     and_then (bout_size_setter s0 (PyFloat 0.1)) (\<lambda>s1.
     and_then (clip_ratio_setter s1 (PyFloat 0.05)) (\<lambda>s2.
     build s2 ps)))"

text \<open>
  \<open>ES.__init__(self, algorithm='ES', hyperparams=None)\<close>: it hands \<open>algorithm\<close> to
  \<open>Optimizer.__init__\<close> and then calls \<open>self._build\<close>, a name neither class defines.
\<close>

definition ES_init :: "pyobj \<Rightarrow> pyval \<Rightarrow> pyval \<Rightarrow> error + pyobj" where
  "ES_init self algorithm_name hyperparams =
     and_then (Optimizer_init self [algorithm_name])
       (\<lambda>s. call_undefined_method s ''_build'' hyperparams)"

text \<open>The calls \<open>EP(params)\<close> and \<open>ES(algorithm, hyperparams)\<close>.\<close>

definition new_EP :: "pyval \<Rightarrow> error + pyobj" where
  "new_EP ps = EP_init (new_object EP) ps"

definition new_ES :: "pyval \<Rightarrow> pyval \<Rightarrow> error + pyobj" where
  "new_ES algorithm_name hyperparams = ES_init (new_object ES) algorithm_name hyperparams"

text \<open>
  The keys of a \<open>params\<close> dictionary (none for any other value), and the names that
  \<open>setattr\<close> does not simply store for an instance of a class: its properties, their
  backing fields, and the three special names.
\<close>

fun dict_keys :: "pyval \<Rightarrow> pyval list" where
  "dict_keys (PyDict kvs) = map fst kvs"
| "dict_keys v = []"

definition reserved_names :: "pyclass \<Rightarrow> string list" where
  "reserved_names c =
     [''algorithm'', ''built'', ''params'', ''_algorithm'', ''_built'', ''_params'',
      ''__class__'', ''__dict__'', ''__weakref__'']
     @ (if c = EP then [''bout_size'', ''clip_ratio'', ''_bout_size'', ''_clip_ratio''] else [])"

fun plain_key :: "pyclass \<Rightarrow> pyval \<Rightarrow> bool" where
  "plain_key c (PyStr name) = (name \<notin> set (reserved_names c))"
| "plain_key c v = False"

text \<open>The name a string key stands for.\<close>

fun name_of :: "pyval \<Rightarrow> string" where
  "name_of (PyStr name) = name"
| "name_of v = []"

text \<open>
  The instance has a \<open>_bout_size\<close>, a float or an int that is neither below 0 nor
  above 1.
\<close>

definition valid_bout_size :: "pyobj \<Rightarrow> bool" where
  "valid_bout_size s =
     (case attrs s ''_bout_size'' of
        None \<Rightarrow> False
      | Some v \<Rightarrow> isinstance_float_int v \<and> \<not> below v 0 \<and> \<not> above v 1)"

section \<open>Random numbers and numpy arithmetic\<close>

text \<open>
  The process-wide random generator.  Its state is the number of samples handed out so
  far; \<open>gauss k\<close>, \<open>unif k\<close> and \<open>rint k\<close> are what sample number \<open>k\<close> is when it is
  asked for as a standard normal value, as a uniform value of the unit interval, or as
  a raw integer.
\<close>

record rng =
  gauss :: "nat \<Rightarrow> real"
  unif :: "nat \<Rightarrow> real"
  rint :: "nat \<Rightarrow> nat"
  drawn :: nat

text \<open>
  Modelled from the spec: \<open>opytimizer.math.random\<close> is not among the sources.  The
  spec has a single process-wide generator.  \<open>generate_gaussian_random_number()\<close>,
  called without a size, returns one sample, which numpy then broadcasts over the other
  operand; with \<open>size=(n, d)\<close> it returns an array of \<open>n\<close> rows of \<open>d\<close> samples, one
  per element.
\<close>

definition generate_gaussian_random_number :: "rng \<Rightarrow> real \<times> rng" where
  "generate_gaussian_random_number g = (gauss g (drawn g), g\<lparr>drawn := Suc (drawn g)\<rparr>)"

definition generate_gaussian_random_array :: "nat \<Rightarrow> nat \<Rightarrow> rng \<Rightarrow> array \<times> rng" where
  "generate_gaussian_random_array n d g =
     (map (\<lambda>j. map (\<lambda>k. gauss g (drawn g + j * d + k)) [0..<d]) [0..<n],
      g\<lparr>drawn := drawn g + n * d\<rparr>)"

text \<open>
  Modelled from the spec: \<open>generate_integer_random_number(low, high)\<close> of the same
  module, an integer from \<open>low\<close> up to but excluding \<open>high\<close>; numpy raises
  \<open>ValueError\<close> when there is none.
\<close>

definition generate_integer_random_number :: "nat \<Rightarrow> nat \<Rightarrow> rng \<Rightarrow> error + (nat \<times> rng)" where
  "generate_integer_random_number low high g =
     (if high \<le> low then Inl ValueError
      else Inr (low + rint g (drawn g) mod (high - low), g\<lparr>drawn := Suc (drawn g)\<rparr>))"

text \<open>
  Modelled from the spec: \<open>generate_uniform_random_number(low, high, size)\<close> of the
  same module, \<open>size\<close> samples between \<open>low\<close> and \<open>high\<close>.
\<close>

definition generate_uniform_random_number :: "real \<Rightarrow> real \<Rightarrow> nat \<Rightarrow> rng \<Rightarrow> real list \<times> rng" where
  "generate_uniform_random_number low high sz g =
     (map (\<lambda>k. low + unif g (drawn g + k) * (high - low)) [0..<sz],
      g\<lparr>drawn := drawn g + sz\<rparr>)"

text \<open>
  Arithmetic on arrays, element by element.  Two arrays of one shape are combined; the
  model has no broadcasting between arrays, and \<open>same_shape\<close> is the test that guards
  the in-place addition, which numpy refuses with a \<open>ValueError\<close> otherwise.
\<close>

definition same_shape :: "array \<Rightarrow> array \<Rightarrow> bool" where
  "same_shape a b = (map length a = map length b)"

definition np_scale :: "real \<Rightarrow> array \<Rightarrow> array" where
  "np_scale r a = map (map (\<lambda>x. x * r)) a"

definition np_add :: "array \<Rightarrow> array \<Rightarrow> array" where
  "np_add a b = map2 (map2 (+)) a b"

definition np_mul :: "array \<Rightarrow> array \<Rightarrow> array" where
  "np_mul a b = map2 (map2 (*)) a b"

definition np_sqrt_abs :: "array \<Rightarrow> array" where
  "np_sqrt_abs a = map (map (\<lambda>x. sqrt \<bar>x\<bar>)) a"

definition np_clip :: "real list \<Rightarrow> real \<Rightarrow> real \<Rightarrow> real list" where
  "np_clip row lo hi = map (\<lambda>x. min (max x lo) hi) row"

text \<open>\<open>strategy.shape[1]\<close> of a two-dimensional array (0 when it has no row).\<close>

definition ncols :: "array \<Rightarrow> nat" where
  "ncols a = (case a of [] \<Rightarrow> 0 | row # _ \<Rightarrow> length row)"

text \<open>\<open>int(x)\<close> truncates towards zero; \<open>xs[:n]\<close> counts a negative \<open>n\<close> from the end.\<close>

definition py_int :: "real \<Rightarrow> int" where
  "py_int x = (if 0 \<le> x then \<lfloor>x\<rfloor> else \<lceil>x\<rceil>)"

definition py_slice_to :: "int \<Rightarrow> 'a list \<Rightarrow> 'a list" where
  "py_slice_to n xs = (if 0 \<le> n then take (nat n) xs else take (length xs - nat (- n)) xs)"

text \<open>
  \<open>sorted(xs, key=lambda pair: pair[0], reverse=True)\<close>: Python reverses the list,
  sorts it stably by the key, and reverses the result.
\<close>

definition py_sorted_reverse :: "(nat \<times> 'a) list \<Rightarrow> (nat \<times> 'a) list" where
  "py_sorted_reverse xs = rev (sort_key fst (rev xs))"

section \<open>EP: mutation, strategy update and tournament selection\<close>

text \<open>
  Modelled from the spec: \<open>Agent.clip_by_bound\<close> is not among the sources.  By the spec
  every component of the row of variable \<open>j\<close> that lies outside the interval from
  \<open>lb[j]\<close> to \<open>ub[j]\<close> is pulled to the nearest bound, in place.
\<close>

definition clip_rows :: "array \<Rightarrow> real list \<Rightarrow> real list \<Rightarrow> array" where
  "clip_rows pos lbs ubs =
     map (\<lambda>j. if j < min (length lbs) (length ubs) then np_clip (pos ! j) (lbs ! j) (ubs ! j)
              else pos ! j) [0..<length pos]"

definition agent_clip_by_bound :: "addr \<Rightarrow> heap \<Rightarrow> heap" where
  "agent_clip_by_bound a h =
     h\<lparr>arrays := (arrays h)(position (objs h a) :=
          clip_rows (arrays h (position (objs h a))) (lb (objs h a)) (ub (objs h a)))\<rparr>"

text \<open>\<open>copy.deepcopy(agent)\<close>: a new agent object with a new position array.\<close>

definition deepcopy_agent :: "addr \<Rightarrow> heap \<Rightarrow> addr \<times> heap" where
  "deepcopy_agent agent h =
     (let (p, h1) = deepcopy_array (position (objs h agent)) h;
          a = nxt h1
      in (a, h1\<lparr>objs := (objs h1)(a := (objs h agent)\<lparr>position := p\<rparr>), nxt := Suc a\<rparr>))"

text \<open>
  \<open>EP._mutate_parent(agent, function, strategy)\<close>.  The sum \<open>a.position += ...\<close> is
  made in place, on the array of the copy.
\<close>

definition mutate_parent ::
  "addr \<Rightarrow> (array \<Rightarrow> real) \<Rightarrow> array \<Rightarrow> heap \<Rightarrow> rng \<Rightarrow> error + (addr \<times> heap \<times> rng)" where
  "mutate_parent agent function strategy h g =
     (let (a, h1) = deepcopy_agent agent h;
          (r1, g1) = generate_gaussian_random_number g;
          p = position (objs h1 a)
      in if \<not> same_shape (arrays h1 p) strategy then Inl ValueError
         else
           (let h2 = h1\<lparr>arrays := (arrays h1)(p := np_add (arrays h1 p) (np_scale r1 strategy))\<rparr>;
                h3 = agent_clip_by_bound a h2;
                h4 = set_fit a (function (arrays h3 (position (objs h3 a)))) h3
            in Inr (a, h4, g1)))"

text \<open>
  The loop at the end of \<open>EP._update_strategy\<close>: \<open>new_strategy[j]\<close> is an
  \<open>IndexError\<close> when there are more bounds than rows.
\<close>

fun clip_strategy_rows :: "real \<Rightarrow> nat \<Rightarrow> (real \<times> real) list \<Rightarrow> array \<Rightarrow> error + array" where
  "clip_strategy_rows ratio j [] new_strategy = Inr new_strategy"
| "clip_strategy_rows ratio j ((lo, hi) # rest) new_strategy =
     (if length new_strategy \<le> j then Inl IndexError
      else clip_strategy_rows ratio (Suc j) rest
             (new_strategy[j := map (\<lambda>x. x * ratio) (np_clip (new_strategy ! j) lo hi)]))"

text \<open>
  \<open>EP._update_strategy(strategy, lower_bound, upper_bound)\<close>; \<open>clip_ratio\<close> is the
  number \<open>self.clip_ratio\<close>.
\<close>

definition update_strategy ::
  "real \<Rightarrow> array \<Rightarrow> real list \<Rightarrow> real list \<Rightarrow> rng \<Rightarrow> error + (array \<times> rng)" where
  "update_strategy ratio strategy lower_bound upper_bound g =
     (let n_vars = length strategy;
          n_dims = ncols strategy;
          (r1, g1) = generate_gaussian_random_array n_vars n_dims g;
          new_strategy = np_add strategy (np_mul r1 (np_sqrt_abs strategy))
      in and_then (clip_strategy_rows ratio 0 (zip lower_bound upper_bound) new_strategy)
           (\<lambda>s. Inr (s, g1)))"

text \<open>
  The first loop of \<open>EP.update\<close>, over the agents from index \<open>i\<close> on.  \<open>strategy[i]\<close> is
  an \<open>IndexError\<close> when the strategy has too few entries.  The result lists the children
  in the order they are appended.
\<close>

fun mutate_loop ::
  "real \<Rightarrow> (array \<Rightarrow> real) \<Rightarrow> nat \<Rightarrow> addr list \<Rightarrow> array list \<Rightarrow> heap \<Rightarrow> rng
     \<Rightarrow> error + (addr list \<times> array list \<times> heap \<times> rng)" where
  "mutate_loop ratio function i [] strategy h g = Inr ([], strategy, h, g)"
| "mutate_loop ratio function i (agent # rest) strategy h g =
     (if length strategy \<le> i then Inl IndexError
      else
        and_then (mutate_parent agent function (strategy ! i) h g) (\<lambda>(a, h1, g1).
        and_then (update_strategy ratio (strategy ! i) (lb (objs h1 agent)) (ub (objs h1 agent)) g1)
          (\<lambda>(s, g2).
        and_then (mutate_loop ratio function (Suc i) rest (strategy[i := s]) h1 g2)
          (\<lambda>(children, strategy', h', g'). Inr (a # children, strategy', h', g')))))"

text \<open>
  The inner loop of the tournament, for the agent of index \<open>i\<close>: \<open>rounds\<close> draws of an
  opponent, each a win when the agent's fitness is strictly smaller.
\<close>

fun bout :: "heap \<Rightarrow> addr list \<Rightarrow> addr \<Rightarrow> nat \<Rightarrow> nat \<Rightarrow> nat list \<Rightarrow> rng \<Rightarrow> error + (nat list \<times> rng)" where
  "bout h pool agent i 0 wins g = Inr (wins, g)"
| "bout h pool agent i (Suc rounds) wins g =
     and_then (generate_integer_random_number 0 (length pool) g) (\<lambda>(index, g1).
       bout h pool agent i rounds
         (if fit (objs h agent) < fit (objs h (pool ! index)) then wins[i := wins ! i + 1] else wins)
         g1)"

text \<open>The outer loop: \<open>for i, agent in enumerate(agents)\<close>.\<close>

fun tournament ::
  "heap \<Rightarrow> addr list \<Rightarrow> nat \<Rightarrow> (nat \<times> addr) list \<Rightarrow> nat list \<Rightarrow> rng \<Rightarrow> error + (nat list \<times> rng)" where
  "tournament h pool n_individuals [] wins g = Inr (wins, g)"
| "tournament h pool n_individuals ((i, agent) # rest) wins g =
     and_then (bout h pool agent i n_individuals wins g) (\<lambda>(wins1, g1).
       tournament h pool n_individuals rest wins1 g1)"

text \<open>
  \<open>EP.update(agents, n_agents, function, strategy)\<close>.  \<open>bout_size\<close> and \<open>clip_ratio\<close>
  are the numbers \<open>self.bout_size\<close> and \<open>self.clip_ratio\<close>; \<open>agents\<close> is the address of
  the caller's list, which \<open>agents += children\<close> extends in place.  The strategy array is
  updated in place too, so its new contents are returned with the address of the new
  list.
\<close>

definition EP_update ::
  "real \<Rightarrow> real \<Rightarrow> addr \<Rightarrow> int \<Rightarrow> (array \<Rightarrow> real) \<Rightarrow> array list \<Rightarrow> heap \<Rightarrow> rng
     \<Rightarrow> error + (addr \<times> array list \<times> heap \<times> rng)" where
  "EP_update bout_sz ratio agent_list n function strategy h g =
     and_then (mutate_loop ratio function 0 (pylists h agent_list) strategy h g)
       (\<lambda>(children, strategy1, h1, g1).
     (let h2 = h1\<lparr>pylists := (pylists h1)(agent_list := pylists h1 agent_list @ children)\<rparr>;
          pool = pylists h2 agent_list;
          n_individuals = py_int (of_int n * bout_sz);
          wins = replicate (length pool) 0
      in and_then (tournament h2 pool (nat n_individuals) (enumerate 0 pool) wins g1)
           (\<lambda>(wins1, g2).
         (let ranked = map snd (py_sorted_reverse (zip wins1 pool));
              r = nxt h2
          in Inr (r, strategy1,
                  h2\<lparr>pylists := (pylists h2)(r := py_slice_to n ranked), nxt := Suc r\<rparr>, g2)))))"

text \<open>
  The number of wins that tournament selection, in the words of the spec, gives the pool
  member of index \<open>i\<close>: of the \<open>n_individuals\<close> opponents drawn for it from the pool,
  the samples from number \<open>first + i * n_individuals\<close> on, those of strictly greater
  fitness.
\<close>

definition opponent :: "rng \<Rightarrow> addr list \<Rightarrow> nat \<Rightarrow> addr" where
  "opponent g pool k = pool ! (rint g k mod length pool)"


text \<open>
  The mutation in the words of the claim about it: a draw of its own for every element
  of the position.
\<close>

definition mutate_parent_per_element ::
  "addr \<Rightarrow> (array \<Rightarrow> real) \<Rightarrow> array \<Rightarrow> heap \<Rightarrow> rng \<Rightarrow> error + (addr \<times> heap \<times> rng)" where
  "mutate_parent_per_element agent function strategy h g =
     (let (a, h1) = deepcopy_agent agent h;
          (r1, g1) = generate_gaussian_random_array (length strategy) (ncols strategy) g;
          p = position (objs h1 a)
      in if \<not> same_shape (arrays h1 p) strategy then Inl ValueError
         else
           (let h2 = h1\<lparr>arrays := (arrays h1)(p := np_add (arrays h1 p) (np_mul strategy r1))\<rparr>;
                h3 = agent_clip_by_bound a h2;
                h4 = set_fit a (function (arrays h3 (position (objs h3 a)))) h3
            in Inr (a, h4, g1)))"

text \<open>
  The array of the child that \<open>_mutate_parent\<close> makes of an agent: the parent's
  position plus the strategy times the one draw, clipped to the parent's bounds.
\<close>

definition child_array :: "addr \<Rightarrow> array \<Rightarrow> heap \<Rightarrow> rng \<Rightarrow> array" where
  "child_array agent strategy h g =
     clip_rows (np_add (arrays h (position (objs h agent))) (np_scale (gauss g (drawn g)) strategy))
       (lb (objs h agent)) (ub (objs h agent))"

text \<open>
  The wins the inner loop counts for an agent in \<open>n\<close> rounds, the first opponent being
  sample number \<open>first\<close>.
\<close>

definition wins_from :: "heap \<Rightarrow> addr list \<Rightarrow> addr \<Rightarrow> rng \<Rightarrow> nat \<Rightarrow> nat \<Rightarrow> nat" where
  "wins_from h pool agent g first n =
     length (filter (\<lambda>t. fit (objs h agent) < fit (objs h (opponent g pool (first + t)))) [0..<n])"

text \<open>A generator, a strategy and a one-agent store to run the definitions on.\<close>

definition example_rng :: rng where
  "example_rng = \<lparr>gauss = (\<lambda>k. of_nat k + 1), unif = (\<lambda>k. 1 / 2), rint = (\<lambda>k. k), drawn = 0\<rparr>"

definition example_strategy :: "array list" where
  "example_strategy = [[[1]], [[1]]]"

text \<open>
  A population and a strategy array that \<open>update\<close> accepts: the agents and their
  arrays are allocated objects, the strategy has an entry of the position's shape for
  every agent, and no agent has more bounds than its strategy entry has rows.
\<close>

definition valid_population :: "heap \<Rightarrow> addr list \<Rightarrow> array list \<Rightarrow> bool" where
  "valid_population h as S =
     ((\<forall>a\<in>set as. a < nxt h \<and> position (objs h a) < nxt h)
    \<and> length as \<le> length S
    \<and> (\<forall>j<length as.
          same_shape (arrays h (position (objs h (as ! j)))) (S ! j)
        \<and> min (length (lb (objs h (as ! j)))) (length (ub (objs h (as ! j)))) \<le> length (S ! j)))"

definition example_pair_heap :: heap where
  "example_pair_heap =
     \<lparr>arrays = (\<lambda>_. [])(0 := [[0, 0]]),
      objs = (\<lambda>_. example_agent 0),
      pylists = (\<lambda>_. []),
      nxt = 2\<rparr>"

section \<open>EP.run\<close>

text \<open>
  Modelled from the spec: \<open>opytimizer.utils.history\<close> is not among the sources.  By
  the spec a History is an append-only sequence of snapshots, one per iteration, each
  recording the population (unless only the best agent is stored) and the best agent.
\<close>

record snapshot =
  snapshot_agents :: "(array \<times> real) list"
  snapshot_best :: "array \<times> real"

record history =
  store_best_only :: bool
  entries :: "snapshot list"

definition History :: "bool \<Rightarrow> history" where
  "History flag = \<lparr>store_best_only = flag, entries = []\<rparr>"

definition dump :: "heap \<Rightarrow> addr \<Rightarrow> addr \<Rightarrow> history \<Rightarrow> history" where
  "dump h agent_list best hist =
     hist\<lparr>entries := entries hist @
       [\<lparr>snapshot_agents =
           (if store_best_only hist then []
            else map (\<lambda>a. (arrays h (position (objs h a)), fit (objs h a))) (pylists h agent_list)),
         snapshot_best = (arrays h (position (objs h best)), fit (objs h best))\<rparr>]\<rparr>"

text \<open>
  Modelled from the spec: \<open>Space.clip_by_bound\<close> is not among the sources; by the
  spec it clips all agents to the bounds.
\<close>

definition space_clip_by_bound :: "space \<Rightarrow> heap \<Rightarrow> heap" where
  "space_clip_by_bound space h = fold agent_clip_by_bound (pylists h (agents space)) h"

text \<open>
  The initialisation of the strategy array in \<open>run\<close>.  One row: \<open>sz\<close> is the agent's
  \<open>n_dimensions\<close>, the size of the sample, \<open>nd\<close> the length of the row it is assigned
  to; numpy accepts a sample of the row's length or of length one.
\<close>

definition init_row :: "nat \<Rightarrow> int \<Rightarrow> real \<Rightarrow> real \<Rightarrow> rng \<Rightarrow> error + (real list \<times> rng)" where
  "init_row nd sz lo hi g =
     (if sz < 0 then Inl ValueError
      else
        (let (u, g1) = generate_uniform_random_number 0 (hi - lo) (nat sz) g;
             v = map (\<lambda>x. 0.05 * x) u
         in if nat sz = nd then Inr (v, g1)
            else if nat sz = 1 then Inr (replicate nd (hd v), g1)
            else Inl ValueError))"

text \<open>\<open>for j, (lb, ub) in enumerate(zip(space.lb, space.ub))\<close>, for the agent of index \<open>i\<close>.\<close>

fun init_agent_strategy ::
  "space \<Rightarrow> heap \<Rightarrow> nat \<Rightarrow> nat \<Rightarrow> (real \<times> real) list \<Rightarrow> array \<Rightarrow> rng \<Rightarrow> error + (array \<times> rng)" where
  "init_agent_strategy space h i j [] rows g = Inr (rows, g)"
| "init_agent_strategy space h i j ((lo, hi) # rest) rows g =
     (if length (pylists h (agents space)) \<le> i then Inl IndexError
      else
        and_then (init_row (nat (n_dimensions space))
                    (agent_n_dimensions (objs h (pylists h (agents space) ! i))) lo hi g)
          (\<lambda>(v, g1).
        if length rows \<le> j then Inl IndexError
        else init_agent_strategy space h i (Suc j) rest (rows[j := v]) g1))"

text \<open>\<open>for i in range(space.n_agents)\<close>, from index \<open>i\<close> on, \<open>todo\<close> agents to go.\<close>

fun init_strategy ::
  "space \<Rightarrow> heap \<Rightarrow> nat \<Rightarrow> nat \<Rightarrow> array list \<Rightarrow> rng \<Rightarrow> error + (array list \<times> rng)" where
  "init_strategy space h i 0 strategy g = Inr (strategy, g)"
| "init_strategy space h i (Suc todo) strategy g =
     and_then (init_agent_strategy space h i 0 (zip (space_lb space) (space_ub space))
                 (strategy ! i) g)
       (\<lambda>(rows, g1). init_strategy space h (Suc i) todo (strategy[i := rows]) g1)"

text \<open>
  The loop of \<open>run\<close>, \<open>t\<close> iterations to go.  It calls \<open>self._update\<close> and
  \<open>self._evaluate\<close>, names that neither \<open>EP\<close> nor \<open>Optimizer\<close> defines (their methods
  are \<open>update\<close> and \<open>evaluate\<close>).  \<open>hook\<close> is the \<open>pre_evaluate\<close> argument.
\<close>

fun run_loop ::
  "pyobj \<Rightarrow> space \<Rightarrow> (array \<Rightarrow> real) \<Rightarrow> pyval \<Rightarrow> nat \<Rightarrow> array list \<Rightarrow> history \<Rightarrow> heap \<Rightarrow> rng
     \<Rightarrow> error + (history \<times> space \<times> heap \<times> rng)" where
  "run_loop self space function hook 0 strategy hist h g = Inr (hist, space, h, g)"
| "run_loop self space function hook (Suc t) strategy hist h g =
     and_then (call_undefined_method self ''_update''
                 (agents space, n_agents space, function, strategy, h, g))
       (\<lambda>(new_agents, strategy1, h1, g1).
       (let space1 = space\<lparr>agents := new_agents\<rparr>;
            h2 = space_clip_by_bound space1 h1
        in and_then (call_undefined_method self ''_evaluate'' (space1, function, hook, h2))
             (\<lambda>h3.
             run_loop self space1 function hook t strategy1
               (dump h3 (agents space1) (best_agent space1) hist) h3 g1)))"

text \<open>
  \<open>EP.run(space, function, store_best_only, pre_evaluate)\<close>.  \<open>np.zeros\<close> refuses a
  negative dimension.
\<close>

definition EP_run ::
  "pyobj \<Rightarrow> space \<Rightarrow> (array \<Rightarrow> real) \<Rightarrow> bool \<Rightarrow> pyval \<Rightarrow> heap \<Rightarrow> rng
     \<Rightarrow> error + (history \<times> space \<times> heap \<times> rng)" where
  "EP_run self space function flag hook h g =
     (if n_agents space < 0 \<or> n_variables space < 0 \<or> n_dimensions space < 0
      then Inl ValueError
      else
        and_then (init_strategy space h 0 (nat (n_agents space))
                    (replicate (nat (n_agents space))
                       (replicate (nat (n_variables space))
                          (replicate (nat (n_dimensions space)) 0))) g)
          (\<lambda>(strategy, g1).
        and_then (call_undefined_method self ''_evaluate'' (space, function, hook, h))
          (\<lambda>h1.
          run_loop self space function hook (nat (n_iterations space)) strategy (History flag)
            h1 g1)))"

section \<open>The run loop with the methods the classes define\<close>

text \<open>
  Modelled from the spec: the driver that the example script starts is not among the
  sources, and \<open>EP.run\<close>, its older form, calls methods that no class defines.  By
  section 4.3 of the spec a run builds the optimizer, evaluates the space once, and then
  in every iteration updates the population, clips all agents to the bounds, re-evaluates
  and appends to the History.  These are the statements of \<open>EP.run\<close> with the two calls
  bound to \<open>update\<close> and \<open>evaluate\<close>; \<open>bout_sz\<close> and \<open>ratio\<close> are the numbers
  \<open>self.bout_size\<close> and \<open>self.clip_ratio\<close>, and \<open>clock t\<close> gives the time readings of
  the evaluation that has \<open>t\<close> iterations still to come.
\<close>

fun run_iterations ::
  "real \<Rightarrow> real \<Rightarrow> space \<Rightarrow> (array \<Rightarrow> real) \<Rightarrow> (nat \<Rightarrow> nat \<Rightarrow> int) \<Rightarrow> nat \<Rightarrow> array list \<Rightarrow> history
     \<Rightarrow> heap \<Rightarrow> rng \<Rightarrow> error + (history \<times> space \<times> array list \<times> heap \<times> rng)" where
  "run_iterations bout_sz ratio space function clock 0 strategy hist h g =
     Inr (hist, space, strategy, h, g)"
| "run_iterations bout_sz ratio space function clock (Suc t) strategy hist h g =
     and_then (EP_update bout_sz ratio (agents space) (n_agents space) function strategy h g)
       (\<lambda>(new_agents, strategy1, h1, g1).
       (let space1 = space\<lparr>agents := new_agents\<rparr>;
            h2 = space_clip_by_bound space1 h1;
            h3 = evaluate space1 function (clock t) h2
        in run_iterations bout_sz ratio space1 function clock t strategy1
             (dump h3 (agents space1) (best_agent space1) hist) h3 g1))"

definition run_pipeline ::
  "real \<Rightarrow> real \<Rightarrow> space \<Rightarrow> (array \<Rightarrow> real) \<Rightarrow> bool \<Rightarrow> (nat \<Rightarrow> nat \<Rightarrow> int) \<Rightarrow> heap \<Rightarrow> rng
     \<Rightarrow> error + (history \<times> space \<times> array list \<times> heap \<times> rng)" where
  "run_pipeline bout_sz ratio space function flag clock h g =
     (if n_agents space < 0 \<or> n_variables space < 0 \<or> n_dimensions space < 0
      then Inl ValueError
      else
        and_then (init_strategy space h 0 (nat (n_agents space))
                    (replicate (nat (n_agents space))
                       (replicate (nat (n_variables space))
                          (replicate (nat (n_dimensions space)) 0))) g)
          (\<lambda>(strategy, g1).
          (let h1 = evaluate space function (clock (nat (n_iterations space))) h
           in run_iterations bout_sz ratio space function clock (nat (n_iterations space))
                strategy (History flag) h1 g1)))"

text \<open>The best fitnesses that the entries of a History record, oldest first.\<close>

definition recorded_best_fits :: "history \<Rightarrow> real list" where
  "recorded_best_fits hist = map (\<lambda>s. snd (snapshot_best s)) (entries hist)"

section \<open>Properties of evaluate\<close>

lemma evaluate_agent_frame:
  assumes "agent \<noteq> best"
  shows "nxt h \<le> nxt (evaluate_agent f now best h agent)"
    and "pylists (evaluate_agent f now best h agent) = pylists h"
    and "\<And>p. p < nxt h \<Longrightarrow> arrays (evaluate_agent f now best h agent) p = arrays h p"
    and "\<And>a. a \<noteq> best \<Longrightarrow> objs (evaluate_agent f now best h agent) a =
           (objs h a)\<lparr>fit := if a = agent then fitness_of f h agent else fit (objs h a)\<rparr>"
  using assms
  by (simp_all add: evaluate_agent_def Let_def set_fit_def set_position_def set_ts_def
      deepcopy_array_def fitness_of_def)

lemma evaluate_agent_best:
  assumes "agent \<noteq> best"
  shows "fitness_of f h agent < fit (objs h best) \<Longrightarrow>
           objs (evaluate_agent f now best h agent) best =
             (objs h best)\<lparr>position := nxt h, fit := fitness_of f h agent, ts := now\<rparr>
           \<and> arrays (evaluate_agent f now best h agent) (nxt h) =
               arrays h (position (objs h agent))
           \<and> nxt (evaluate_agent f now best h agent) = Suc (nxt h)"
    and "\<not> fitness_of f h agent < fit (objs h best) \<Longrightarrow>
           objs (evaluate_agent f now best h agent) best = objs h best"
  using assms
  by (simp_all add: evaluate_agent_def Let_def set_fit_def set_position_def set_ts_def
      deepcopy_array_def fitness_of_def)

lemma evaluate_agent_best_fit:
  assumes "agent \<noteq> best"
  shows "fit (objs (evaluate_agent f now best h agent) best) =
           min (fitness_of f h agent) (fit (objs h best))"
proof (cases "fitness_of f h agent < fit (objs h best)")
  case True
  then show ?thesis using evaluate_agent_best(1)[OF assms True] by simp
next
  case False
  then show ?thesis using evaluate_agent_best(2)[OF assms False] by simp
qed

lemma evaluate_loop_frame:
  assumes "best \<notin> set as" and "\<forall>a\<in>set as. position (objs h a) < nxt h"
  shows "nxt h \<le> nxt (evaluate_loop f clock best i as h)
       \<and> pylists (evaluate_loop f clock best i as h) = pylists h
       \<and> (\<forall>p<nxt h. arrays (evaluate_loop f clock best i as h) p = arrays h p)
       \<and> (\<forall>a. a \<noteq> best \<longrightarrow> objs (evaluate_loop f clock best i as h) a =
             (objs h a)\<lparr>fit := if a \<in> set as then fitness_of f h a else fit (objs h a)\<rparr>)"
  using assms
proof (induction as arbitrary: i h)
  case Nil
  then show ?case by simp
next
  case (Cons x xs)
  define h1 where "h1 = evaluate_agent f (clock i) best h x"
  have xb: "x \<noteq> best" using Cons.prems(1) by auto
  note fr = evaluate_agent_frame[OF xb, where h = h and f = f and now = "clock i", folded h1_def]
  have pos1: "\<forall>a\<in>set xs. position (objs h1 a) < nxt h1"
  proof
    fix a assume a: "a \<in> set xs"
    then have "a \<noteq> best" using Cons.prems(1) by auto
    then have "position (objs h1 a) = position (objs h a)" by (simp add: fr(4))
    moreover have "position (objs h a) < nxt h" using a Cons.prems(2) by simp
    ultimately show "position (objs h1 a) < nxt h1" using fr(1) by simp
  qed
  have nb: "best \<notin> set xs" using Cons.prems(1) by simp
  note ih = Cons.IH[OF nb pos1, of "Suc i"]
  have fit1: "fitness_of f h1 a = fitness_of f h a"
    if "a \<noteq> best" "position (objs h a) < nxt h" for a
    using that by (simp add: fitness_of_def fr(3) fr(4))
  have "objs (evaluate_loop f clock best (Suc i) xs h1) a =
          (objs h a)\<lparr>fit := if a \<in> set (x # xs) then fitness_of f h a else fit (objs h a)\<rparr>"
    if ab: "a \<noteq> best" for a
  proof (cases "a \<in> set xs")
    case True
    then have "position (objs h a) < nxt h" using Cons.prems(2) by simp
    then show ?thesis using ih ab True fit1[OF ab] by (simp add: fr(4))
  next
    case False
    then show ?thesis using ih ab by (simp add: fr(4))
  qed
  moreover have "nxt h \<le> nxt (evaluate_loop f clock best (Suc i) xs h1)"
    using ih fr(1) by simp
  moreover have "pylists (evaluate_loop f clock best (Suc i) xs h1) = pylists h"
    using ih fr(2) by simp
  moreover have "\<forall>p<nxt h. arrays (evaluate_loop f clock best (Suc i) xs h1) p = arrays h p"
    using ih fr(1) fr(3) by simp
  ultimately show ?case by (simp add: h1_def)
qed

lemma evaluate_loop_best_fit:
  assumes "best \<notin> set as" and "\<forall>a\<in>set as. position (objs h a) < nxt h"
  shows "fit (objs (evaluate_loop f clock best i as h) best) =
           Min (insert (fit (objs h best)) (fitness_of f h ` set as))"
  using assms
proof (induction as arbitrary: i h)
  case Nil
  then show ?case by simp
next
  case (Cons x xs)
  define h1 where "h1 = evaluate_agent f (clock i) best h x"
  have xb: "x \<noteq> best" using Cons.prems(1) by auto
  note fr = evaluate_agent_frame[OF xb, where h = h and f = f and now = "clock i", folded h1_def]
  have same: "position (objs h1 a) = position (objs h a) \<and> fitness_of f h1 a = fitness_of f h a"
    if "a \<in> set xs" for a
  proof -
    have "a \<noteq> best" using that Cons.prems(1) by auto
    moreover have "position (objs h a) < nxt h" using that Cons.prems(2) by simp
    ultimately show ?thesis by (simp add: fitness_of_def fr(3) fr(4))
  qed
  have pos1: "\<forall>a\<in>set xs. position (objs h1 a) < nxt h1"
    using same Cons.prems(2) fr(1) by fastforce
  have nb: "best \<notin> set xs" using Cons.prems(1) by simp
  have img: "fitness_of f h1 ` set xs = fitness_of f h ` set xs"
    using same by (auto simp: image_iff)
  have "fit (objs (evaluate_loop f clock best (Suc i) xs h1) best) =
          Min (insert (fit (objs h1 best)) (fitness_of f h ` set xs))"
    using Cons.IH[OF nb pos1, of "Suc i"] img by simp
  also have "fit (objs h1 best) = min (fitness_of f h x) (fit (objs h best))"
    unfolding h1_def by (rule evaluate_agent_best_fit[OF xb])
  also have "Min (insert (min (fitness_of f h x) (fit (objs h best)))
                 (fitness_of f h ` set xs)) =
             Min (insert (fit (objs h best)) (fitness_of f h ` set (x # xs)))"
  proof -
    let ?S = "fitness_of f h ` set xs"
    have fin: "finite ?S" by simp
    show ?thesis
    proof (cases "?S = {}")
      case True
      then show ?thesis by (simp add: min.commute)
    next
      case False
      then show ?thesis using fin
        by (simp add: Min_insert2 min.assoc min.commute min.left_commute)
    qed
  qed
  finally show ?case by (simp add: h1_def)
qed

lemma evaluate_loop_best_copy:
  assumes "best \<notin> set as" and "\<forall>a\<in>set as. position (objs h a) < nxt h"
  shows "if \<exists>a\<in>set as. fitness_of f h a < fit (objs h best)
         then nxt h \<le> position (objs (evaluate_loop f clock best i as h) best)
            \<and> position (objs (evaluate_loop f clock best i as h) best)
                < nxt (evaluate_loop f clock best i as h)
            \<and> (\<exists>a\<in>set as.
                  arrays (evaluate_loop f clock best i as h)
                    (position (objs (evaluate_loop f clock best i as h) best)) =
                  arrays h (position (objs h a))
                \<and> fit (objs (evaluate_loop f clock best i as h) best) = fitness_of f h a)
         else objs (evaluate_loop f clock best i as h) best = objs h best"
  using assms
proof (induction as arbitrary: i h)
  case Nil
  then show ?case by simp
next
  case (Cons x xs)
  define h1 where "h1 = evaluate_agent f (clock i) best h x"
  define h2 where "h2 = evaluate_loop f clock best (Suc i) xs h1"
  have xb: "x \<noteq> best" using Cons.prems(1) by auto
  note fr = evaluate_agent_frame[OF xb, where h = h and f = f and now = "clock i", folded h1_def]
  note bs = evaluate_agent_best[OF xb, where h = h and f = f and now = "clock i", folded h1_def]
  have same: "position (objs h1 a) = position (objs h a)
            \<and> arrays h1 (position (objs h a)) = arrays h (position (objs h a))
            \<and> fitness_of f h1 a = fitness_of f h a"
    if "a \<in> set xs" for a
  proof -
    have "a \<noteq> best" using that Cons.prems(1) by auto
    moreover have "position (objs h a) < nxt h" using that Cons.prems(2) by simp
    ultimately show ?thesis by (simp add: fitness_of_def fr(3) fr(4))
  qed
  have pos1: "\<forall>a\<in>set xs. position (objs h1 a) < nxt h1"
    using same Cons.prems(2) fr(1) by fastforce
  have nb: "best \<notin> set xs" using Cons.prems(1) by simp
  note ih = Cons.IH[OF nb pos1, of "Suc i", folded h2_def]
  note lf = evaluate_loop_frame[OF nb pos1, of f clock "Suc i", folded h2_def]
  have fit1: "fit (objs h1 best) = min (fitness_of f h x) (fit (objs h best))"
    unfolding h1_def by (rule evaluate_agent_best_fit[OF xb])
  have goal: "if \<exists>a\<in>set (x # xs). fitness_of f h a < fit (objs h best)
         then nxt h \<le> position (objs h2 best) \<and> position (objs h2 best) < nxt h2
            \<and> (\<exists>a\<in>set (x # xs).
                  arrays h2 (position (objs h2 best)) = arrays h (position (objs h a))
                \<and> fit (objs h2 best) = fitness_of f h a)
         else objs h2 best = objs h best"
  proof (cases "\<exists>a\<in>set xs. fitness_of f h1 a < fit (objs h1 best)")
    case True
    then obtain c where c: "c \<in> set xs" "fitness_of f h1 c < fit (objs h1 best)" by blast
    from ih True have A: "nxt h1 \<le> position (objs h2 best)" "position (objs h2 best) < nxt h2"
      and "\<exists>a\<in>set xs. arrays h2 (position (objs h2 best)) = arrays h1 (position (objs h1 a))
                \<and> fit (objs h2 best) = fitness_of f h1 a"
      by simp_all
    then obtain a where a: "a \<in> set xs"
        "arrays h2 (position (objs h2 best)) = arrays h1 (position (objs h1 a))"
        "fit (objs h2 best) = fitness_of f h1 a" by blast
    have "fitness_of f h c < fit (objs h best)" using c same[OF c(1)] fit1 by simp
    then have ex: "\<exists>a\<in>set (x # xs). fitness_of f h a < fit (objs h best)" using c(1) by auto
    have "arrays h2 (position (objs h2 best)) = arrays h (position (objs h a))
        \<and> fit (objs h2 best) = fitness_of f h a"
      using a same[OF a(1)] by simp
    then show ?thesis using ex A fr(1) a(1) by auto
  next
    case False
    with ih have keep: "objs h2 best = objs h1 best" by simp
    show ?thesis
    proof (cases "fitness_of f h x < fit (objs h best)")
      case True
      note b1 = bs(1)[OF True]
      have p: "position (objs h2 best) = nxt h" using keep b1 by simp
      have "nxt h < nxt h1" using b1 by simp
      then have "arrays h2 (nxt h) = arrays h1 (nxt h)" using lf by simp
      then have "arrays h2 (position (objs h2 best)) = arrays h (position (objs h x))"
        using p b1 by simp
      moreover have "fit (objs h2 best) = fitness_of f h x" using keep b1 by simp
      moreover have "position (objs h2 best) < nxt h2" using p \<open>nxt h < nxt h1\<close> lf by simp
      ultimately show ?thesis using True p by auto
    next
      case F2: False
      then have k1: "objs h1 best = objs h best" using bs(2) by simp
      have "\<not> (\<exists>a\<in>set (x # xs). fitness_of f h a < fit (objs h best))"
        using False F2 same k1 by auto
      then show ?thesis using keep k1 by simp
    qed
  qed
  have eq: "evaluate_loop f clock best i (x # xs) h = h2" by (simp add: h1_def h2_def)
  show ?case unfolding eq by (rule goal)
qed

section \<open>Claims about evaluate\<close>

lemma evaluate_parts:
  fixes space :: space and h :: heap and f :: "array \<Rightarrow> real" and clock :: "nat \<Rightarrow> int"
  assumes sep: "best_agent space \<notin> set (pylists h (agents space))"
      and alloc: "\<forall>a\<in>set (pylists h (agents space)). position (objs h a) < nxt h"
  shows "\<forall>a\<in>set (pylists h (agents space)).
           position (objs (evaluate space f clock h) a) = position (objs h a)
         \<and> arrays (evaluate space f clock h) (position (objs h a)) = arrays h (position (objs h a))
         \<and> fit (objs (evaluate space f clock h) a) = fitness_of f h a"
    and "fit (objs (evaluate space f clock h) (best_agent space)) =
           Min (insert (fit (objs h (best_agent space)))
                  (fitness_of f h ` set (pylists h (agents space))))"
    and "(\<exists>a\<in>set (pylists h (agents space)). fitness_of f h a < fit (objs h (best_agent space)))
         \<longrightarrow> (\<forall>a\<in>set (pylists h (agents space)).
                position (objs (evaluate space f clock h) (best_agent space))
                  \<noteq> position (objs (evaluate space f clock h) a))
           \<and> (\<exists>a\<in>set (pylists h (agents space)).
                arrays (evaluate space f clock h)
                  (position (objs (evaluate space f clock h) (best_agent space))) =
                arrays h (position (objs h a))
              \<and> fit (objs (evaluate space f clock h) (best_agent space)) = fitness_of f h a)"
    and "\<not> (\<exists>a\<in>set (pylists h (agents space)). fitness_of f h a < fit (objs h (best_agent space)))
         \<longrightarrow> objs (evaluate space f clock h) (best_agent space) = objs h (best_agent space)"
proof -
  let ?as = "pylists h (agents space)"
  let ?b = "best_agent space"
  note lf = evaluate_loop_frame[OF sep alloc, of f clock 0, folded evaluate_def]
  note bc = evaluate_loop_best_copy[OF sep alloc, of f clock 0, folded evaluate_def]
  show "\<forall>a\<in>set ?as.
           position (objs (evaluate space f clock h) a) = position (objs h a)
         \<and> arrays (evaluate space f clock h) (position (objs h a)) = arrays h (position (objs h a))
         \<and> fit (objs (evaluate space f clock h) a) = fitness_of f h a"
  proof
    fix a assume a: "a \<in> set ?as"
    then have "a \<noteq> ?b" using sep by auto
    moreover have "position (objs h a) < nxt h" using a alloc by simp
    ultimately show "position (objs (evaluate space f clock h) a) = position (objs h a)
         \<and> arrays (evaluate space f clock h) (position (objs h a)) = arrays h (position (objs h a))
         \<and> fit (objs (evaluate space f clock h) a) = fitness_of f h a"
      using lf a by simp
  qed
  then have pos: "\<And>a. a \<in> set ?as \<Longrightarrow>
      position (objs (evaluate space f clock h) a) = position (objs h a)" by simp
  show "fit (objs (evaluate space f clock h) ?b) =
           Min (insert (fit (objs h ?b)) (fitness_of f h ` set ?as))"
    unfolding evaluate_def by (rule evaluate_loop_best_fit[OF sep alloc])
  show "(\<exists>a\<in>set ?as. fitness_of f h a < fit (objs h ?b))
         \<longrightarrow> (\<forall>a\<in>set ?as. position (objs (evaluate space f clock h) ?b)
                  \<noteq> position (objs (evaluate space f clock h) a))
           \<and> (\<exists>a\<in>set ?as.
                arrays (evaluate space f clock h) (position (objs (evaluate space f clock h) ?b)) =
                arrays h (position (objs h a))
              \<and> fit (objs (evaluate space f clock h) ?b) = fitness_of f h a)"
  proof
    assume ex: "\<exists>a\<in>set ?as. fitness_of f h a < fit (objs h ?b)"
    with bc have fresh: "nxt h \<le> position (objs (evaluate space f clock h) ?b)"
      and cp: "\<exists>a\<in>set ?as.
                arrays (evaluate space f clock h) (position (objs (evaluate space f clock h) ?b)) =
                arrays h (position (objs h a))
              \<and> fit (objs (evaluate space f clock h) ?b) = fitness_of f h a"
      by simp_all
    have "\<forall>a\<in>set ?as. position (objs (evaluate space f clock h) ?b)
                  \<noteq> position (objs (evaluate space f clock h) a)"
    proof
      fix a assume a: "a \<in> set ?as"
      then have "position (objs h a) < nxt h" using alloc by simp
      then show "position (objs (evaluate space f clock h) ?b)
                  \<noteq> position (objs (evaluate space f clock h) a)"
        using fresh pos[OF a] by simp
    qed
    then show "(\<forall>a\<in>set ?as. position (objs (evaluate space f clock h) ?b)
                  \<noteq> position (objs (evaluate space f clock h) a))
           \<and> (\<exists>a\<in>set ?as.
                arrays (evaluate space f clock h) (position (objs (evaluate space f clock h) ?b)) =
                arrays h (position (objs h a))
              \<and> fit (objs (evaluate space f clock h) ?b) = fitness_of f h a)"
      using cp by simp
  qed
  show "\<not> (\<exists>a\<in>set ?as. fitness_of f h a < fit (objs h ?b))
         \<longrightarrow> objs (evaluate space f clock h) ?b = objs h ?b"
    using bc by simp
qed

lemma evaluate_agent_exact:
  "agent \<noteq> best \<longrightarrow>
           fit (objs (evaluate_agent f now best g agent) agent) = fitness_of f g agent
         \<and> (if fitness_of f g agent < fit (objs g best)
            then position (objs (evaluate_agent f now best g agent) best) = nxt g
               \<and> arrays (evaluate_agent f now best g agent) (nxt g) = arrays g (position (objs g agent))
               \<and> fit (objs (evaluate_agent f now best g agent) best) = fitness_of f g agent
            else objs (evaluate_agent f now best g agent) best = objs g best)"
proof
  assume ab: "agent \<noteq> best"
  show "fit (objs (evaluate_agent f now best g agent) agent) = fitness_of f g agent
         \<and> (if fitness_of f g agent < fit (objs g best)
            then position (objs (evaluate_agent f now best g agent) best) = nxt g
               \<and> arrays (evaluate_agent f now best g agent) (nxt g) = arrays g (position (objs g agent))
               \<and> fit (objs (evaluate_agent f now best g agent) best) = fitness_of f g agent
            else objs (evaluate_agent f now best g agent) best = objs g best)"
    using evaluate_agent_frame(4)[OF ab ab, where f = f and now = now and h = g]
      evaluate_agent_best[OF ab, where f = f and h = g and now = now]
    by (cases "fitness_of f g agent < fit (objs g best)") simp_all
qed

text \<open>
  C1.  \<open>Optimizer.evaluate\<close>, on a space whose best agent is an object of its own (not a
  member of the population) and whose agents' arrays are allocated objects: every agent
  keeps its position and gets the fitness \<open>function(position)\<close>; the best agent's
  fitness becomes the minimum of its previous fitness and the agents' new fitnesses; if
  some agent is strictly better than the previous best, the best agent's position is a
  newly allocated array (so it is no agent's array) holding the position of an agent
  with that minimal fitness, and otherwise the best agent is left as it was.  One pass
  of the loop replaces the best agent exactly when the agent's new fitness is strictly
  lower than the best agent's current one.
\<close>

theorem evaluate_fitness_and_best:
  fixes space :: space and h :: heap and f :: "array \<Rightarrow> real" and clock :: "nat \<Rightarrow> int"
  assumes sep: "best_agent space \<notin> set (pylists h (agents space))"
      and alloc: "\<forall>a\<in>set (pylists h (agents space)). position (objs h a) < nxt h"
  shows "(\<forall>a\<in>set (pylists h (agents space)).
           position (objs (evaluate space f clock h) a) = position (objs h a)
         \<and> arrays (evaluate space f clock h) (position (objs h a)) = arrays h (position (objs h a))
         \<and> fit (objs (evaluate space f clock h) a) = fitness_of f h a)
       \<and> fit (objs (evaluate space f clock h) (best_agent space)) =
           Min (insert (fit (objs h (best_agent space)))
                  (fitness_of f h ` set (pylists h (agents space))))
       \<and> ((\<exists>a\<in>set (pylists h (agents space)). fitness_of f h a < fit (objs h (best_agent space)))
         \<longrightarrow> (\<forall>a\<in>set (pylists h (agents space)).
                position (objs (evaluate space f clock h) (best_agent space))
                  \<noteq> position (objs (evaluate space f clock h) a))
           \<and> (\<exists>a\<in>set (pylists h (agents space)).
                arrays (evaluate space f clock h)
                  (position (objs (evaluate space f clock h) (best_agent space))) =
                arrays h (position (objs h a))
              \<and> fit (objs (evaluate space f clock h) (best_agent space)) = fitness_of f h a))
       \<and> (\<not> (\<exists>a\<in>set (pylists h (agents space)). fitness_of f h a < fit (objs h (best_agent space)))
         \<longrightarrow> objs (evaluate space f clock h) (best_agent space) = objs h (best_agent space))
       \<and> (agent \<noteq> best \<longrightarrow>
           fit (objs (evaluate_agent f now best g agent) agent) = fitness_of f g agent
         \<and> (if fitness_of f g agent < fit (objs g best)
            then position (objs (evaluate_agent f now best g agent) best) = nxt g
               \<and> arrays (evaluate_agent f now best g agent) (nxt g) = arrays g (position (objs g agent))
               \<and> fit (objs (evaluate_agent f now best g agent) best) = fitness_of f g agent
            else objs (evaluate_agent f now best g agent) best = objs g best))"
  using evaluate_parts[OF sep alloc, where f = f and clock = clock]
    evaluate_agent_exact[of agent best f now g]
  by (intro conjI) assumption+

theorem evaluate_fitness_and_best_witness:
  "fit (objs (evaluate example_space sphere (\<lambda>i. 0) example_heap) 3) = 9
 \<and> fit (objs (evaluate example_space sphere (\<lambda>i. 0) example_heap) 4) = 1
 \<and> fit (objs (evaluate example_space sphere (\<lambda>i. 0) example_heap) 5) = 1
 \<and> position (objs (evaluate example_space sphere (\<lambda>i. 0) example_heap) 5) \<noteq> 1"
proof -
  define E where "E = evaluate example_space sphere (\<lambda>i. 0) example_heap"
  have l: "pylists example_heap (agents example_space) = [3, 4]"
    by (simp add: example_space_def example_heap_def)
  have b: "best_agent example_space = 5" by (simp add: example_space_def)
  have sep: "best_agent example_space \<notin> set (pylists example_heap (agents example_space))"
    unfolding l b by simp
  have alloc: "\<forall>a\<in>set (pylists example_heap (agents example_space)).
                 position (objs example_heap a) < nxt example_heap"
    unfolding l by (simp add: example_heap_def example_agent_def)
  have f3: "fitness_of sphere example_heap 3 = 9" and f4: "fitness_of sphere example_heap 4 = 1"
    by (simp_all add: example_heap_def example_agent_def fitness_of_def sphere_def)
  have f5: "fit (objs example_heap 5) = 100" by (simp add: example_heap_def example_agent_def)
  have p4: "position (objs example_heap 4) = 1" by (simp add: example_heap_def example_agent_def)
  note t = evaluate_fitness_and_best[OF sep alloc, where f = sphere and clock = "\<lambda>i. 0",
      folded E_def, unfolded l b]
  note t1 = t[THEN conjunct1]
  note t2 = t[THEN conjunct2, THEN conjunct1]
  note t3 = t[THEN conjunct2, THEN conjunct2, THEN conjunct1]
  have a3: "fit (objs E 3) = 9" and a4: "fit (objs E 4) = 1" and q4: "position (objs E 4) = 1"
    using t1 f3 f4 p4 by simp_all
  have a5: "fit (objs E 5) = 1" using t2 by (simp add: f3 f4 f5)
  have "position (objs E 5) \<noteq> position (objs E 4)" using t3 by (simp add: f3 f4 f5)
  then show ?thesis using a3 a4 a5 q4 by (simp add: E_def)
qed

lemma evaluate_loop_best_le:
  "best \<notin> set as \<Longrightarrow>
     fit (objs (evaluate_loop f clock best i as h) best) \<le> fit (objs h best)"
proof (induction as arbitrary: i h)
  case Nil
  then show ?case by simp
next
  case (Cons x xs)
  have xb: "x \<noteq> best" and nb: "best \<notin> set xs" using Cons.prems by auto
  have "fit (objs (evaluate_loop f clock best (Suc i) xs (evaluate_agent f (clock i) best h x)) best)
          \<le> fit (objs (evaluate_agent f (clock i) best h x) best)"
    by (rule Cons.IH[OF nb])
  also have "\<dots> \<le> fit (objs h best)"
    by (simp add: evaluate_agent_best_fit[OF xb])
  finally show ?case by simp
qed


section \<open>Construction and build\<close>

lemma has_no_build: "\<not> has_class_attribute c ''_build''"
  by (cases c) (simp_all add: has_class_attribute_def)

lemma new_EP_None:
  "new_EP PyNone = Inr \<lparr>klass = EP, attrs = [''_algorithm'' \<mapsto> PyStr ''EP'', ''_params'' \<mapsto> PyDict [],
       ''_built'' \<mapsto> PyBool True, ''_bout_size'' \<mapsto> PyFloat 0.1, ''_clip_ratio'' \<mapsto> PyFloat 0.05]\<rparr>"
  apply (simp add: new_EP_def EP_init_def Optimizer_init_def and_then_def new_object_def
      algorithm_setter_def params_setter_def built_setter_def bout_size_setter_def
      clip_ratio_setter_def build_def write_attr_def algorithm_def built_def read_attr_def)
  apply (rule ext)
  apply simp
  done

lemma setattr_klass: "setattr s k v = Inr s' \<Longrightarrow> klass s' = klass s"
  by (auto simp: setattr_def algorithm_setter_def built_setter_def params_setter_def
      bout_size_setter_def clip_ratio_setter_def write_attr_def
      split: pyval.splits if_splits)

lemma setattr_valid_bout_size:
  assumes "valid_bout_size s" "klass s = EP" "k \<noteq> PyStr ''_bout_size''" "k \<noteq> PyStr ''__dict__''"
    "setattr s k v = Inr s'"
  shows "valid_bout_size s'"
  using assms
  by (auto simp: setattr_def algorithm_setter_def built_setter_def params_setter_def
      bout_size_setter_def clip_ratio_setter_def write_attr_def valid_bout_size_def
      split: pyval.splits if_splits option.splits)


lemma setattr_items_valid_bout_size:
  assumes "valid_bout_size s" "klass s = EP"
    "PyStr ''_bout_size'' \<notin> fst ` set kvs" "PyStr ''__dict__'' \<notin> fst ` set kvs"
    "setattr_items s kvs = Inr s'"
  shows "valid_bout_size s' \<and> klass s' = EP"
  using assms
proof (induction kvs arbitrary: s)
  case Nil
  then show ?case by simp
next
  case (Cons kv kvs)
  obtain k v where kv: "kv = (k, v)" by (cases kv)
  from Cons.prems(5) kv obtain s1 where s1: "setattr s k v = Inr s1" "setattr_items s1 kvs = Inr s'"
    by (auto split: sum.splits)
  have k: "k \<noteq> PyStr ''_bout_size''" "k \<noteq> PyStr ''__dict__''"
    using Cons.prems(3,4) kv by auto
  have "valid_bout_size s1" "klass s1 = EP"
    using setattr_valid_bout_size[OF Cons.prems(1,2) k s1(1)] setattr_klass[OF s1(1)] Cons.prems(2)
    by simp_all
  then show ?case using Cons.IH[OF _ _ _ _ s1(2)] Cons.prems(3,4) by auto
qed

lemma build_valid_bout_size:
  assumes "valid_bout_size s" "klass s = EP"
    "PyStr ''_bout_size'' \<notin> set (dict_keys ps)" "PyStr ''__dict__'' \<notin> set (dict_keys ps)"
    "build s ps = Inr s'"
  shows "valid_bout_size s'"
proof (cases "truthy ps")
  case False
  then show ?thesis using assms
    by (auto simp: build_def and_then_def built_setter_def write_attr_def valid_bout_size_def
        split: sum.splits if_splits option.splits)
next
  case True
  with assms(5) obtain kvs s2 where ps: "ps = PyDict kvs"
    and s2: "setattr_items (write_attr s ''_params'' ps) kvs = Inr s2"
    and s': "s' = write_attr s2 ''_built'' (PyBool True)"
    by (cases ps) (auto simp: build_def and_then_def params_setter_def built_setter_def
        split: sum.splits if_splits)
  have "valid_bout_size (write_attr s ''_params'' ps)" "klass (write_attr s ''_params'' ps) = EP"
    using assms(1,2) by (simp_all add: write_attr_def valid_bout_size_def)
  then have "valid_bout_size s2"
    using setattr_items_valid_bout_size[OF _ _ _ _ s2] assms(3,4) ps by simp
  then show ?thesis by (simp add: s' write_attr_def valid_bout_size_def)
qed

lemma new_EP_valid_bout_size:
  assumes "new_EP ps = Inr s"
    "PyStr ''_bout_size'' \<notin> set (dict_keys ps)" "PyStr ''__dict__'' \<notin> set (dict_keys ps)"
  shows "valid_bout_size s"
proof -
  define s2 where "s2 = \<lparr>klass = EP, attrs = [''_algorithm'' \<mapsto> PyStr ''EP'', ''_params'' \<mapsto> PyDict [],
       ''_built'' \<mapsto> PyBool False, ''_bout_size'' \<mapsto> PyFloat 0.1, ''_clip_ratio'' \<mapsto> PyFloat 0.05]\<rparr>"
  have "new_EP ps = build s2 ps"
    by (simp add: new_EP_def EP_init_def Optimizer_init_def and_then_def new_object_def
      algorithm_setter_def params_setter_def built_setter_def bout_size_setter_def
      clip_ratio_setter_def write_attr_def s2_def)
  moreover have "valid_bout_size s2" "klass s2 = EP"
    by (simp_all add: s2_def valid_bout_size_def)
  ultimately show ?thesis using build_valid_bout_size[OF _ _ assms(2,3)] assms(1) by simp
qed

lemma in_unit_interval:
  "isinstance_float_int w \<Longrightarrow> \<not> below w 0 \<Longrightarrow> \<not> above w 1 \<Longrightarrow> w \<noteq> PyNaN \<Longrightarrow>
     0 \<le> number w \<and> number w \<le> 1"
  by (cases w) (auto split: if_splits)

text \<open>
  C8 (amended).  The \<open>bout_size\<close> setter raises \<open>e.TypeError\<close> for every value that is
  not a float, an int or a bool, raises \<open>e.ValueError\<close> for every such value below 0
  or above 1, and stores every other one.  Hence every EP instance constructed from
  \<open>params\<close> that has neither the key \<open>_bout_size\<close> nor the key \<open>__dict__\<close> has a
  \<open>bout_size\<close> that is neither below 0 nor above 1: a number of the interval from 0 to
  1, unless it is NaN, of which both comparisons are false.
\<close>

theorem bout_size_setter_rejects:
  "(\<not> isinstance_float_int v \<longrightarrow> bout_size_setter self v = Inl E_TypeError)
 \<and> (isinstance_float_int v \<and> (below v 0 \<or> above v 1)
      \<longrightarrow> bout_size_setter self v = Inl E_ValueError)
 \<and> (isinstance_float_int v \<and> \<not> below v 0 \<and> \<not> above v 1
      \<longrightarrow> bout_size_setter self v = Inr (write_attr self ''_bout_size'' v))
 \<and> (isinstance_float_int v \<and> v \<noteq> PyNaN \<and> (number v < 0 \<or> 1 < number v \<or> v = PyInf \<or> v = PyNegInf)
      \<longrightarrow> bout_size_setter self v = Inl E_ValueError)
 \<and> (new_EP ps = Inr s \<and> PyStr ''_bout_size'' \<notin> set (dict_keys ps)
        \<and> PyStr ''__dict__'' \<notin> set (dict_keys ps)
      \<longrightarrow> (\<exists>w. bout_size s = Inr w \<and> isinstance_float_int w \<and> \<not> below w 0 \<and> \<not> above w 1
               \<and> (w \<noteq> PyNaN \<longrightarrow> 0 \<le> number w \<and> number w \<le> 1)))"
proof -
  have "\<exists>w. bout_size s = Inr w \<and> isinstance_float_int w \<and> \<not> below w 0 \<and> \<not> above w 1
               \<and> (w \<noteq> PyNaN \<longrightarrow> 0 \<le> number w \<and> number w \<le> 1)"
    if "new_EP ps = Inr s" "PyStr ''_bout_size'' \<notin> set (dict_keys ps)"
       "PyStr ''__dict__'' \<notin> set (dict_keys ps)"
    using new_EP_valid_bout_size[OF that] in_unit_interval
    by (auto simp: valid_bout_size_def bout_size_def read_attr_def split: option.splits)
  moreover have "bout_size_setter self v = Inl E_ValueError"
    if "isinstance_float_int v" "v \<noteq> PyNaN"
       "number v < 0 \<or> 1 < number v \<or> v = PyInf \<or> v = PyNegInf"
    using that by (cases v) (auto simp: bout_size_setter_def split: if_splits)
  ultimately show ?thesis by (auto simp: bout_size_setter_def)
qed

theorem bout_size_setter_rejects_witness:
  "bout_size_setter (new_object EP) (PyFloat 1.5) = Inl E_ValueError
 \<and> bout_size_setter (new_object EP) (PyStr ''x'') = Inl E_TypeError
 \<and> bout_size_setter (new_object EP) (PyFloat 0.5) =
       Inr (write_attr (new_object EP) ''_bout_size'' (PyFloat 0.5))
 \<and> (case new_EP (PyDict [(PyStr ''bout_size'', PyFloat 0.5)]) of
       Inl e \<Rightarrow> False
     | Inr s \<Rightarrow> \<exists>w. bout_size s = Inr w \<and> isinstance_float_int w \<and> w \<noteq> PyNaN
                    \<and> 0 \<le> number w \<and> number w \<le> 1)"
proof -
  have 1: "bout_size_setter (new_object EP) (PyFloat 1.5) = Inl E_ValueError"
    using bout_size_setter_rejects[of "PyFloat 1.5" "new_object EP"] by simp
  have 2: "bout_size_setter (new_object EP) (PyStr ''x'') = Inl E_TypeError"
    using bout_size_setter_rejects[of "PyStr ''x''" "new_object EP"] by simp
  have 3: "bout_size_setter (new_object EP) (PyFloat 0.5) =
       Inr (write_attr (new_object EP) ''_bout_size'' (PyFloat 0.5))"
    using bout_size_setter_rejects[of "PyFloat 0.5" "new_object EP"] by simp
  obtain s where s: "new_EP (PyDict [(PyStr ''bout_size'', PyFloat 0.5)]) = Inr s"
    and b: "bout_size s = Inr (PyFloat 0.5)"
    by (simp add: new_EP_def EP_init_def Optimizer_init_def and_then_def new_object_def
      algorithm_setter_def params_setter_def built_setter_def bout_size_setter_def
      clip_ratio_setter_def build_def write_attr_def algorithm_def built_def read_attr_def
      setattr_def bout_size_def)
  have "\<exists>w. bout_size s = Inr w \<and> isinstance_float_int w \<and> \<not> below w 0 \<and> \<not> above w 1
               \<and> (w \<noteq> PyNaN \<longrightarrow> 0 \<le> number w \<and> number w \<le> 1)"
    using bout_size_setter_rejects[where ps = "PyDict [(PyStr ''bout_size'', PyFloat 0.5)]" and s = s] s
    by simp
  then have "\<exists>w. bout_size s = Inr w \<and> isinstance_float_int w \<and> w \<noteq> PyNaN
                    \<and> 0 \<le> number w \<and> number w \<le> 1"
    using b by auto
  then show ?thesis using 1 2 3 s by simp
qed

text \<open>
  The claim as written fails: \<open>build\<close> hands every key to \<open>setattr\<close>, and the key
  \<open>_bout_size\<close> names the backing field itself, which no setter guards.  The setter
  also stores NaN, which is below nothing and above nothing.
\<close>

theorem bout_size_backing_field_counterexample:
  "and_then (new_EP (PyDict [(PyStr ''_bout_size'', PyFloat 1.5)])) bout_size = Inr (PyFloat 1.5)
 \<and> and_then (new_EP (PyDict [(PyStr ''bout_size'', PyNaN)])) bout_size = Inr PyNaN"
  by (simp add: new_EP_def EP_init_def Optimizer_init_def and_then_def new_object_def
      algorithm_setter_def params_setter_def built_setter_def bout_size_setter_def
      clip_ratio_setter_def build_def write_attr_def algorithm_def built_def read_attr_def
      setattr_def bout_size_def)

lemma setattr_plain:
  "plain_key (klass s) k \<Longrightarrow> setattr s k v = Inr (write_attr s (name_of k) v)"
  by (cases k) (auto simp: setattr_def reserved_names_def)

lemma setattr_items_plain:
  assumes "distinct (map fst kvs)" "\<forall>k\<in>set (map fst kvs). plain_key (klass s) k"
  shows "\<exists>s'. setattr_items s kvs = Inr s' \<and> klass s' = klass s
            \<and> (\<forall>(k, v)\<in>set kvs. attrs s' (name_of k) = Some v)
            \<and> (\<forall>name. PyStr name \<notin> set (map fst kvs) \<longrightarrow> attrs s' name = attrs s name)"
  using assms
proof (induction kvs arbitrary: s)
  case Nil
  then show ?case by simp
next
  case (Cons kv kvs)
  obtain k v where kv: "kv = (k, v)" by (cases kv)
  have pk: "plain_key (klass s) k" using Cons.prems(2) kv by simp
  then obtain n where n: "k = PyStr n" by (cases k) simp_all
  define s1 where "s1 = write_attr s n v"
  have st: "setattr s k v = Inr s1" using setattr_plain[OF pk] n by (simp add: s1_def)
  have k1: "klass s1 = klass s" by (simp add: s1_def write_attr_def)
  have d: "distinct (map fst kvs)" and nk: "PyStr n \<notin> set (map fst kvs)"
    using Cons.prems(1) kv n by simp_all
  have pl: "\<forall>k\<in>set (map fst kvs). plain_key (klass s1) k" using Cons.prems(2) k1 by simp
  from Cons.IH[OF d pl] obtain s' where s': "setattr_items s1 kvs = Inr s'" "klass s' = klass s1"
    "\<forall>(k, v)\<in>set kvs. attrs s' (name_of k) = Some v"
    "\<forall>name. PyStr name \<notin> set (map fst kvs) \<longrightarrow> attrs s' name = attrs s1 name"
    by blast
  have "attrs s' n = Some v" using s'(4) nk by (simp add: s1_def write_attr_def)
  moreover have "\<forall>name. PyStr name \<notin> set (map fst (kv # kvs)) \<longrightarrow> attrs s' name = attrs s name"
    using s'(4) kv n by (auto simp: s1_def write_attr_def)
  ultimately show ?case using s' st kv n k1 by auto
qed

lemma build_truthy_non_dict:
  "truthy ps \<Longrightarrow> \<not> isinstance_dict ps \<Longrightarrow> build self ps = Inl E_TypeError"
  by (simp add: build_def and_then_def params_setter_def)

lemma build_falsy:
  "\<not> truthy ps \<Longrightarrow> attrs self ''_algorithm'' \<noteq> None \<Longrightarrow>
     build self ps = Inr (write_attr self ''_built'' (PyBool True))"
  by (auto simp: build_def and_then_def built_setter_def algorithm_def built_def read_attr_def
      write_attr_def)

lemma build_sets_built: "build self ps = Inr s \<Longrightarrow> built s = Inr (PyBool True)"
  by (auto simp: build_def and_then_def built_setter_def algorithm_def built_def read_attr_def
      write_attr_def split: sum.splits if_splits option.splits)

lemma build_plain_dict:
  assumes "kvs \<noteq> []" "distinct (map fst kvs)" "\<forall>k\<in>set (map fst kvs). plain_key (klass self) k"
    "attrs self ''_algorithm'' \<noteq> None"
  shows "\<exists>s'. build self (PyDict kvs) = Inr s' \<and> params s' = Inr (PyDict kvs)
           \<and> built s' = Inr (PyBool True)
           \<and> (\<forall>(k, v)\<in>set kvs. attrs s' (name_of k) = Some v)"
proof -
  define s1 where "s1 = write_attr self ''_params'' (PyDict kvs)"
  have k1: "klass s1 = klass self" by (simp add: s1_def write_attr_def)
  from setattr_items_plain[OF assms(2), of s1] assms(3) k1
  obtain s2 where s2: "setattr_items s1 kvs = Inr s2"
    "\<forall>(k, v)\<in>set kvs. attrs s2 (name_of k) = Some v"
    "\<forall>name. PyStr name \<notin> set (map fst kvs) \<longrightarrow> attrs s2 name = attrs s1 name"
    by auto
  have res: "\<not> plain_key (klass self) (PyStr ''_algorithm'')"
    "\<not> plain_key (klass self) (PyStr ''_params'')" "\<not> plain_key (klass self) (PyStr ''_built'')"
    by (simp_all add: reserved_names_def)
  then have notin: "PyStr ''_algorithm'' \<notin> set (map fst kvs)" "PyStr ''_params'' \<notin> set (map fst kvs)"
    "PyStr ''_built'' \<notin> set (map fst kvs)"
    using assms(3) by blast+
  define s3 where "s3 = write_attr s2 ''_built'' (PyBool True)"
  have a: "attrs s2 ''_algorithm'' \<noteq> None" "attrs s2 ''_params'' = Some (PyDict kvs)"
    using s2(3) notin assms(4) by (simp_all add: s1_def write_attr_def)
  have b: "build self (PyDict kvs) = Inr s3"
    using assms(1) s2(1) a
    by (auto simp: build_def and_then_def params_setter_def built_setter_def algorithm_def
        built_def read_attr_def write_attr_def s1_def s3_def)
  have "\<forall>(k, v)\<in>set kvs. attrs s3 (name_of k) = Some v"
  proof (clarify)
    fix k v assume kv: "(k, v) \<in> set kvs"
    then have "plain_key (klass self) k" using assms(3) by force
    then have "name_of k \<noteq> ''_built''" by (cases k) (auto simp: reserved_names_def)
    then show "attrs s3 (name_of k) = Some v" using s2(2) kv by (auto simp: s3_def write_attr_def)
  qed
  moreover have "params s3 = Inr (PyDict kvs)" "built s3 = Inr (PyBool True)"
    using a by (simp_all add: params_def built_def read_attr_def s3_def write_attr_def)
  ultimately show ?thesis using b by blast
qed

text \<open>
  C5 (amended).  \<open>build\<close> raises \<open>e.TypeError\<close> for every argument that is true in
  a condition and is not a dictionary.  An argument that is false in a condition
  (\<open>None\<close>, the empty dictionary, 0, the empty string) is accepted: \<open>build\<close> then only
  sets \<open>built\<close>.  Whenever \<open>build\<close> returns, \<open>built\<close> is true.  For a non-empty dictionary
  whose keys are distinct strings, none of them a property, a backing field or a special
  name, \<open>build\<close> returns, \<open>params\<close> is the dictionary, and every key is an attribute of
  the instance holding its value.
\<close>

theorem build_accepts_and_rejects:
  "(truthy ps \<and> \<not> isinstance_dict ps \<longrightarrow> build self ps = Inl E_TypeError)
 \<and> (\<not> truthy ps \<and> attrs self ''_algorithm'' \<noteq> None
      \<longrightarrow> build self ps = Inr (write_attr self ''_built'' (PyBool True)))
 \<and> (build self ps = Inr s \<longrightarrow> built s = Inr (PyBool True))
 \<and> (kvs \<noteq> [] \<and> distinct (map fst kvs) \<and> (\<forall>k\<in>set (map fst kvs). plain_key (klass self) k)
      \<and> attrs self ''_algorithm'' \<noteq> None
      \<longrightarrow> (\<exists>s'. build self (PyDict kvs) = Inr s' \<and> params s' = Inr (PyDict kvs)
             \<and> built s' = Inr (PyBool True)
             \<and> (\<forall>(k, v)\<in>set kvs. attrs s' (name_of k) = Some v)))"
  using build_truthy_non_dict[of ps self] build_falsy[of ps self] build_sets_built[of self ps s]
    build_plain_dict[of kvs self]
  by blast

theorem build_accepts_and_rejects_witness:
  "build (new_object Optimizer) (PyInt 5) = Inl E_TypeError
 \<and> (case and_then (Optimizer_init (new_object Optimizer) []) (\<lambda>s. build s PyNone) of
       Inl e \<Rightarrow> False
     | Inr s' \<Rightarrow> built s' = Inr (PyBool True))
 \<and> (case and_then (Optimizer_init (new_object Optimizer) [])
            (\<lambda>s. build s (PyDict [(PyStr ''step'', PyInt 3)])) of
       Inl e \<Rightarrow> False
     | Inr s' \<Rightarrow> attrs s' ''step'' = Some (PyInt 3) \<and> built s' = Inr (PyBool True))"
proof -
  define s0 where "s0 = write_attr (write_attr (write_attr (new_object Optimizer)
     ''_algorithm'' (PyStr ''Optimizer'')) ''_params'' (PyDict [])) ''_built'' (PyBool False)"
  have i: "Optimizer_init (new_object Optimizer) [] = Inr s0"
    by (simp add: Optimizer_init_def and_then_def algorithm_setter_def params_setter_def
        built_setter_def new_object_def s0_def)
  have a: "attrs s0 ''_algorithm'' \<noteq> None" and k: "klass s0 = Optimizer"
    by (simp_all add: s0_def write_attr_def new_object_def)
  have 1: "build (new_object Optimizer) (PyInt 5) = Inl E_TypeError"
    using build_accepts_and_rejects[of "PyInt 5" "new_object Optimizer"] by simp
  have "build s0 PyNone = Inr (write_attr s0 ''_built'' (PyBool True))"
    using build_accepts_and_rejects[of PyNone s0] a by simp
  moreover have "built (write_attr s0 ''_built'' (PyBool True)) = Inr (PyBool True)"
    using build_accepts_and_rejects[of PyNone s0 "write_attr s0 ''_built'' (PyBool True)"] calculation
    by simp
  ultimately have 2: "case and_then (Optimizer_init (new_object Optimizer) []) (\<lambda>s. build s PyNone) of
       Inl e \<Rightarrow> False | Inr s' \<Rightarrow> built s' = Inr (PyBool True)"
    by (simp add: i and_then_def)
  have "\<exists>s'. build s0 (PyDict [(PyStr ''step'', PyInt 3)]) = Inr s'
           \<and> params s' = Inr (PyDict [(PyStr ''step'', PyInt 3)])
           \<and> built s' = Inr (PyBool True)
           \<and> (\<forall>(k, v)\<in>set [(PyStr ''step'', PyInt 3)]. attrs s' (name_of k) = Some v)"
    using build_accepts_and_rejects[where self = s0 and kvs = "[(PyStr ''step'', PyInt 3)]"] a k
    by (simp add: reserved_names_def)
  then have 3: "case and_then (Optimizer_init (new_object Optimizer) [])
            (\<lambda>s. build s (PyDict [(PyStr ''step'', PyInt 3)])) of
       Inl e \<Rightarrow> False
     | Inr s' \<Rightarrow> attrs s' ''step'' = Some (PyInt 3) \<and> built s' = Inr (PyBool True)"
    by (auto simp: i and_then_def)
  show ?thesis using 1 2 3 by simp
qed

text \<open>
  The claim as written fails twice: \<open>None\<close> is not a dictionary and \<open>build(None)\<close>
  returns with \<open>built\<close> true, and the dictionary \<open>{'bout_size': 1.5}\<close> makes \<open>build\<close>
  raise on an EP instance.
\<close>

theorem build_counterexample:
  "\<not> isinstance_dict PyNone
 \<and> and_then (and_then (Optimizer_init (new_object Optimizer) []) (\<lambda>s. build s PyNone)) built
     = Inr (PyBool True)
 \<and> isinstance_dict (PyDict [(PyStr ''bout_size'', PyFloat 1.5)])
 \<and> and_then (new_EP PyNone) (\<lambda>s. build s (PyDict [(PyStr ''bout_size'', PyFloat 1.5)]))
     = Inl E_ValueError"
  by (simp add: new_EP_def EP_init_def Optimizer_init_def and_then_def new_object_def
      algorithm_setter_def params_setter_def built_setter_def bout_size_setter_def
      clip_ratio_setter_def build_def write_attr_def algorithm_def built_def read_attr_def
      setattr_def)

text \<open>
  C9.  Constructing an ES raises for every \<open>algorithm\<close> and \<open>hyperparams\<close>:
  \<open>Optimizer.__init__\<close> takes no argument but \<open>self\<close>, and \<open>ES.__init__\<close> passes it one.
  Had that call returned, \<open>self._build\<close> would raise as well, for no class defines the
  name.  Constructing an EP with the same \<open>None\<close> returns a built optimizer.
\<close>

theorem ES_constructor_raises:
  "new_ES algorithm_name hyperparams = Inl TypeError
 \<and> \<not> has_class_attribute ES ''_build''
 \<and> and_then (new_EP PyNone) built = Inr (PyBool True)"
  by (simp add: new_ES_def ES_init_def Optimizer_init_def and_then_def has_class_attribute_def
      new_EP_def EP_init_def new_object_def
      algorithm_setter_def params_setter_def built_setter_def bout_size_setter_def
      clip_ratio_setter_def build_def write_attr_def algorithm_def built_def read_attr_def)

section \<open>Properties of EP\<close>

lemma mutate_parent_eq:
  "mutate_parent agent f S h g =
     (if same_shape (arrays h (position (objs h agent))) S then
        Inr (Suc (nxt h),
             h\<lparr>arrays := (arrays h)(nxt h := child_array agent S h g),
               objs := (objs h)(Suc (nxt h) :=
                  (objs h agent)\<lparr>position := nxt h, fit := f (child_array agent S h g)\<rparr>),
               nxt := Suc (Suc (nxt h))\<rparr>,
             g\<lparr>drawn := Suc (drawn g)\<rparr>)
      else Inl ValueError)"
  by (simp add: mutate_parent_def deepcopy_agent_def deepcopy_array_def Let_def
      generate_gaussian_random_number_def agent_clip_by_bound_def set_fit_def child_array_def)

lemma clip_strategy_rows_length:
  "clip_strategy_rows cr j bs A = Inr A' \<Longrightarrow> length A' = length A"
  by (induction cr j bs A rule: clip_strategy_rows.induct) (auto split: if_splits)

lemma clip_strategy_rows_succeeds:
  "j + length bs \<le> length A \<Longrightarrow> \<exists>A'. clip_strategy_rows cr j bs A = Inr A'"
  by (induction cr j bs A rule: clip_strategy_rows.induct) auto

lemma update_strategy_rng:
  "update_strategy cr S lbs ubs g = Inr (S', g') \<Longrightarrow>
     g' = g\<lparr>drawn := drawn g + length S * ncols S\<rparr>"
  by (auto simp: update_strategy_def Let_def generate_gaussian_random_array_def and_then_def
      split: sum.splits)

lemma update_strategy_succeeds:
  assumes "min (length lbs) (length ubs) \<le> length S"
  shows "\<exists>S'. update_strategy cr S lbs ubs g = Inr (S', g\<lparr>drawn := drawn g + length S * ncols S\<rparr>)"
proof -
  define R where "R = fst (generate_gaussian_random_array (length S) (ncols S) g)"
  define N where "N = np_add S (np_mul R (np_sqrt_abs S))"
  have "length R = length S" by (simp add: R_def generate_gaussian_random_array_def)
  then have "length N = length S" by (simp add: N_def np_add_def np_mul_def np_sqrt_abs_def)
  then have "0 + length (zip lbs ubs) \<le> length N" using assms by simp
  from clip_strategy_rows_succeeds[OF this, of cr]
  obtain A' where "clip_strategy_rows cr 0 (zip lbs ubs) N = Inr A'" by blast
  then show ?thesis
    by (simp add: update_strategy_def Let_def generate_gaussian_random_array_def and_then_def
        N_def R_def)
qed

lemma mutate_loop_frame:
  "mutate_loop cr f i as S h g = Inr (cs, S', h', g') \<Longrightarrow>
     cs = map (\<lambda>k. Suc (nxt h + 2 * k)) [0..<length as]
   \<and> nxt h' = nxt h + 2 * length as
   \<and> pylists h' = pylists h
   \<and> (\<forall>a<nxt h. objs h' a = objs h a \<and> arrays h' a = arrays h a)
   \<and> gauss g' = gauss g \<and> rint g' = rint g \<and> unif g' = unif g
   \<and> length S' = length S"
proof (induction as arbitrary: i S h g cs S' h' g')
  case Nil
  then show ?case by simp
next
  case (Cons a rest)
  from Cons.prems have len: "i < length S" by (auto split: if_splits)
  define h1 where "h1 = h\<lparr>arrays := (arrays h)(nxt h := child_array a (S ! i) h g),
               objs := (objs h)(Suc (nxt h) :=
                  (objs h a)\<lparr>position := nxt h, fit := f (child_array a (S ! i) h g)\<rparr>),
               nxt := Suc (Suc (nxt h))\<rparr>"
  define g1 where "g1 = g\<lparr>drawn := Suc (drawn g)\<rparr>"
  from Cons.prems len have mp: "mutate_parent a f (S ! i) h g = Inr (Suc (nxt h), h1, g1)"
    by (auto simp: mutate_parent_eq h1_def g1_def and_then_def split: if_splits)
  from Cons.prems len mp obtain s g2 where
    us: "update_strategy cr (S ! i) (lb (objs h1 a)) (ub (objs h1 a)) g1 = Inr (s, g2)"
    by (auto simp: and_then_def split: sum.splits)
  from Cons.prems len mp us obtain cs' where
    rec: "mutate_loop cr f (Suc i) rest (S[i := s]) h1 g2 = Inr (cs', S', h', g')"
    and cs: "cs = Suc (nxt h) # cs'"
    by (auto simp: and_then_def split: sum.splits)
  note ih = Cons.IH[OF rec]
  have g2: "gauss g2 = gauss g \<and> rint g2 = rint g \<and> unif g2 = unif g"
    using update_strategy_rng[OF us] by (simp add: g1_def)
  have n1: "nxt h1 = Suc (Suc (nxt h))" by (simp add: h1_def)
  have "cs' = map (\<lambda>k. Suc (nxt h + 2 * Suc k)) [0..<length rest]"
    using ih n1 by simp
  then have "cs = map (\<lambda>k. Suc (nxt h + 2 * k)) [0..<length (a # rest)]"
    using cs by (simp add: upt_rec[of 0 "Suc _"] map_Suc_upt[symmetric] del: upt_Suc)
  moreover have "\<forall>b<nxt h. objs h' b = objs h b \<and> arrays h' b = arrays h b"
  proof (intro allI impI)
    fix b assume b: "b < nxt h"
    then have "b < nxt h1" using n1 by simp
    then have "objs h' b = objs h1 b \<and> arrays h' b = arrays h1 b" using ih by simp
    then show "objs h' b = objs h b \<and> arrays h' b = arrays h b" using b by (simp add: h1_def)
  qed
  moreover have "nxt h' = nxt h + 2 * length (a # rest)" using ih n1 by simp
  moreover have "pylists h' = pylists h" using ih by (simp add: h1_def)
  ultimately show ?case using ih g2 by simp
qed

lemma mutate_loop_succeeds:
  assumes "\<forall>a\<in>set as. a < nxt h \<and> position (objs h a) < nxt h"
    and "i + length as \<le> length S"
    and "\<forall>j<length as. same_shape (arrays h (position (objs h (as ! j)))) (S ! (i + j))
            \<and> min (length (lb (objs h (as ! j)))) (length (ub (objs h (as ! j))))
                \<le> length (S ! (i + j))"
  shows "\<exists>cs S' h' g'. mutate_loop cr f i as S h g = Inr (cs, S', h', g')"
  using assms
proof (induction as arbitrary: i S h g)
  case Nil
  then show ?case by simp
next
  case (Cons a rest)
  have len: "i < length S" using Cons.prems(2) by simp
  have a: "a < nxt h" "position (objs h a) < nxt h" using Cons.prems(1) by simp_all
  have sh: "same_shape (arrays h (position (objs h a))) (S ! i)"
    and bd: "min (length (lb (objs h a))) (length (ub (objs h a))) \<le> length (S ! i)"
    using Cons.prems(3)[rule_format, of 0] by simp_all
  define h1 where "h1 = h\<lparr>arrays := (arrays h)(nxt h := child_array a (S ! i) h g),
               objs := (objs h)(Suc (nxt h) :=
                  (objs h a)\<lparr>position := nxt h, fit := f (child_array a (S ! i) h g)\<rparr>),
               nxt := Suc (Suc (nxt h))\<rparr>"
  define g1 where "g1 = g\<lparr>drawn := Suc (drawn g)\<rparr>"
  have mp: "mutate_parent a f (S ! i) h g = Inr (Suc (nxt h), h1, g1)"
    using sh by (simp add: mutate_parent_eq h1_def g1_def)
  have old: "objs h1 b = objs h b" if "b < nxt h" for b using that by (simp add: h1_def)
  have olda: "arrays h1 p = arrays h p" if "p < nxt h" for p using that by (simp add: h1_def)
  have "min (length (lb (objs h1 a))) (length (ub (objs h1 a))) \<le> length (S ! i)"
    using bd old[OF a(1)] by simp
  from update_strategy_succeeds[OF this, of cr g1]
  obtain s g2 where us: "update_strategy cr (S ! i) (lb (objs h1 a)) (ub (objs h1 a)) g1 = Inr (s, g2)"
    by blast
  have p1: "\<forall>b\<in>set rest. b < nxt h1 \<and> position (objs h1 b) < nxt h1"
  proof
    fix b assume "b \<in> set rest"
    then have "b < nxt h" "position (objs h b) < nxt h" using Cons.prems(1) by simp_all
    then show "b < nxt h1 \<and> position (objs h1 b) < nxt h1" using old[of b] by (simp add: h1_def)
  qed
  have p2: "Suc i + length rest \<le> length (S[i := s])" using Cons.prems(2) by simp
  have p3: "\<forall>j<length rest.
       same_shape (arrays h1 (position (objs h1 (rest ! j)))) (S[i := s] ! (Suc i + j))
     \<and> min (length (lb (objs h1 (rest ! j)))) (length (ub (objs h1 (rest ! j))))
          \<le> length (S[i := s] ! (Suc i + j))"
  proof (intro allI impI)
    fix j assume j: "j < length rest"
    then have m: "rest ! j \<in> set rest" by simp
    then have b: "rest ! j < nxt h" "position (objs h (rest ! j)) < nxt h"
      using Cons.prems(1) by simp_all
    have "same_shape (arrays h (position (objs h (rest ! j)))) (S ! (i + Suc j))
        \<and> min (length (lb (objs h (rest ! j)))) (length (ub (objs h (rest ! j))))
            \<le> length (S ! (i + Suc j))"
      using Cons.prems(3)[rule_format, of "Suc j"] j by simp
    then show "same_shape (arrays h1 (position (objs h1 (rest ! j)))) (S[i := s] ! (Suc i + j))
     \<and> min (length (lb (objs h1 (rest ! j)))) (length (ub (objs h1 (rest ! j))))
          \<le> length (S[i := s] ! (Suc i + j))"
      using old[OF b(1)] olda[OF b(2)] by simp
  qed
  from Cons.IH[OF p1 p2 p3, of g2] obtain cs S' h' g' where
    "mutate_loop cr f (Suc i) rest (S[i := s]) h1 g2 = Inr (cs, S', h', g')" by blast
  then show ?case using len mp us by (simp add: and_then_def)
qed

lemma opponent_drawn [simp]: "opponent (g\<lparr>drawn := d\<rparr>) pool k = opponent g pool k"
  by (simp add: opponent_def)

lemma wins_from_drawn [simp]: "wins_from h pool agent (g\<lparr>drawn := d\<rparr>) first n = wins_from h pool agent g first n"
  by (simp add: wins_from_def)

lemma wins_from_Suc:
  "wins_from h pool agent g first (Suc n) =
     (if fit (objs h agent) < fit (objs h (opponent g pool first)) then 1 else 0)
     + wins_from h pool agent g (Suc first) n"
proof -
  have "[0..<Suc n] = 0 # map Suc [0..<n]"
    by (simp add: upt_rec[of 0 "Suc n"] map_Suc_upt del: upt_Suc)
  then show ?thesis by (simp add: wins_from_def filter_map o_def del: upt_Suc)
qed

lemma bout_eq:
  assumes "pool \<noteq> []" "i < length wins"
  shows "bout h pool agent i k wins g =
           Inr (wins[i := wins ! i + wins_from h pool agent g (drawn g) k], g\<lparr>drawn := drawn g + k\<rparr>)"
  using assms
proof (induction k arbitrary: wins g)
  case 0
  then show ?case by (simp add: wins_from_def)
next
  case (Suc k)
  define g1 where "g1 = g\<lparr>drawn := Suc (drawn g)\<rparr>"
  have gi: "generate_integer_random_number 0 (length pool) g
              = Inr (rint g (drawn g) mod length pool, g1)"
    using Suc.prems(1) by (simp add: generate_integer_random_number_def g1_def)
  have op: "pool ! (rint g (drawn g) mod length pool) = opponent g pool (drawn g)"
    by (simp add: opponent_def)
  show ?case
  proof (cases "fit (objs h agent) < fit (objs h (opponent g pool (drawn g)))")
    case True
    have l: "i < length (wins[i := wins ! i + 1])" using Suc.prems(2) by simp
    show ?thesis
      using Suc.IH[OF Suc.prems(1) l, of g1] True Suc.prems(2)
      by (simp add: gi and_then_def op wins_from_Suc g1_def)
  next
    case False
    show ?thesis
      using Suc.IH[OF Suc.prems(1) Suc.prems(2), of g1] False
      by (simp add: gi and_then_def op wins_from_Suc g1_def)
  qed
qed

lemma tournament_eq:
  assumes "pool \<noteq> [] \<or> as = []" "i + length as \<le> length wins"
  shows "tournament h pool n (enumerate i as) wins g =
           Inr (map (\<lambda>j. if i \<le> j \<and> j < i + length as
                          then wins ! j + wins_from h pool (as ! (j - i)) g (drawn g + (j - i) * n) n
                          else wins ! j) [0..<length wins],
                g\<lparr>drawn := drawn g + length as * n\<rparr>)"
  using assms
proof (induction as arbitrary: i wins g)
  case Nil
  then show ?case by (auto intro!: nth_equalityI)
next
  case (Cons a rest)
  have pool: "pool \<noteq> []" using Cons.prems(1) by simp
  have i: "i < length wins" using Cons.prems(2) by simp
  define wins1 where "wins1 = wins[i := wins ! i + wins_from h pool a g (drawn g) n]"
  define g1 where "g1 = g\<lparr>drawn := drawn g + n\<rparr>"
  have b: "bout h pool a i n wins g = Inr (wins1, g1)"
    using bout_eq[OF pool i] by (simp add: wins1_def g1_def)
  have l1: "Suc i + length rest \<le> length wins1" using Cons.prems(2) by (simp add: wins1_def)
  note ih = Cons.IH[OF disjI1[OF pool] l1, of g1]
  define F1 where "F1 = (\<lambda>j. if Suc i \<le> j \<and> j < Suc i + length rest
                          then wins1 ! j + wins_from h pool (rest ! (j - Suc i)) g1 (drawn g1 + (j - Suc i) * n) n
                          else wins1 ! j)"
  define F2 where "F2 = (\<lambda>j. if i \<le> j \<and> j < i + length (a # rest)
                          then wins ! j + wins_from h pool ((a # rest) ! (j - i)) g (drawn g + (j - i) * n) n
                          else wins ! j)"
  have pt: "F1 j = F2 j" if j: "j < length wins" for j
  proof -
    consider "j < i" | "j = i" | "i < j"  by linarith
    then show ?thesis
    proof cases
      case 1
      then show ?thesis by (simp add: F1_def F2_def wins1_def)
    next
      case 2
      then show ?thesis using i by (simp add: F1_def F2_def wins1_def)
    next
      case 3
      then obtain d where d: "j = Suc i + d" using less_iff_Suc_add by auto
      then have "j - i = Suc d" "j - Suc i = d" by simp_all
      then show ?thesis using 3 by (simp add: F1_def F2_def wins1_def g1_def add.assoc)
    qed
  qed
  have "length wins1 = length wins" by (simp add: wins1_def)
  then have eq: "map F1 [0..<length wins1] = map F2 [0..<length wins]"
    using pt by simp
  have "tournament h pool n (enumerate i (a # rest)) wins g =
          tournament h pool n (enumerate (Suc i) rest) wins1 g1"
    by (simp add: b and_then_def)
  then show ?case using ih[folded F1_def] eq by (simp add: g1_def F2_def add.assoc add.commute)
qed

lemma EP_update_result:
  fixes n :: int and bs :: real and h :: heap and L :: addr and cs :: "addr list"
  assumes ml: "mutate_loop cr f 0 (pylists h L) S h g = Inr (cs, S1, h1, g1)"
  defines "pool \<equiv> pylists h L @ cs"
    and "k \<equiv> nat (py_int (of_int n * bs))"
  defines "wins \<equiv> map (\<lambda>j. wins_from h1 pool (pool ! j) g1 (drawn g1 + j * k) k) [0..<length pool]"
  shows "EP_update bs cr L n f S h g =
           Inr (nxt h1, S1,
                h1\<lparr>pylists := (pylists h1)(L := pool,
                       nxt h1 := py_slice_to n (map snd (py_sorted_reverse (zip wins pool)))),
                   nxt := Suc (nxt h1)\<rparr>,
                g1\<lparr>drawn := drawn g1 + length pool * k\<rparr>)"
proof -
  have pl: "pylists h1 L = pylists h L" using mutate_loop_frame[OF ml] by simp
  define h2 where "h2 = h1\<lparr>pylists := (pylists h1)(L := pool)\<rparr>"
  have wf: "wins_from h2 pool a g1 d k = wins_from h1 pool a g1 d k" for a d
    by (simp add: wins_from_def h2_def)
  have t: "tournament h2 pool k (enumerate 0 pool) (replicate (length pool) 0) g1 =
             Inr (wins, g1\<lparr>drawn := drawn g1 + length pool * k\<rparr>)"
    using tournament_eq[of pool pool 0 "replicate (length pool) 0" h2 k g1]
    by (simp add: wins_def wf cong: map_cong)
  note t' = t[unfolded h2_def pool_def k_def, simplified]
  show ?thesis
    by (simp add: EP_update_def ml and_then_def Let_def pl t' pool_def k_def)
qed

lemma EP_update_Inr_D:
  "EP_update bs cr L n f S h g = Inr (r, S', h', g') \<Longrightarrow>
     \<exists>cs S1 h1 g1. mutate_loop cr f 0 (pylists h L) S h g = Inr (cs, S1, h1, g1)"
  by (cases "mutate_loop cr f 0 (pylists h L) S h g") (auto simp: EP_update_def and_then_def)

lemma EP_update_succeeds:
  assumes "valid_population h (pylists h L) S"
  shows "\<exists>r S' h' g'. EP_update bs cr L n f S h g = Inr (r, S', h', g')"
proof -
  from assms have "\<exists>cs S' h' g'. mutate_loop cr f 0 (pylists h L) S h g = Inr (cs, S', h', g')"
    by (intro mutate_loop_succeeds) (simp_all add: valid_population_def)
  then obtain cs S1 h1 g1 where "mutate_loop cr f 0 (pylists h L) S h g = Inr (cs, S1, h1, g1)"
    by blast
  from EP_update_result[OF this] show ?thesis by blast
qed

lemma length_py_sorted_reverse [simp]: "length (py_sorted_reverse xs) = length xs"
  by (simp add: py_sorted_reverse_def)

lemma EP_update_lists:
  assumes e: "EP_update bs cr L n f S h g = Inr (r, S', h', g')" and L: "L < nxt h"
  shows "pylists h' L = pylists h L @ map (\<lambda>k. Suc (nxt h + 2 * k)) [0..<length (pylists h L)]"
    and "r = nxt h + 2 * length (pylists h L)"
    and "0 \<le> n \<Longrightarrow> length (pylists h' r) = min (nat n) (2 * length (pylists h L))"
proof -
  from EP_update_Inr_D[OF e] obtain cs S1 h1 g1 where
    ml: "mutate_loop cr f 0 (pylists h L) S h g = Inr (cs, S1, h1, g1)" by blast
  note fr = mutate_loop_frame[OF ml]
  note res = EP_update_result[OF ml, of bs n, unfolded e, simplified]
  have r: "r = nxt h1" using res by simp
  then show r': "r = nxt h + 2 * length (pylists h L)" using fr by simp
  then have ne: "L \<noteq> r" using L by simp
  have h': "pylists h' = (pylists h1)(L := pylists h L @ cs,
       nxt h1 := py_slice_to n (map snd (py_sorted_reverse (zip
          (map (\<lambda>j. wins_from h1 (pylists h L @ cs) ((pylists h L @ cs) ! j) g1
                   (drawn g1 + j * nat (py_int (of_int n * bs))) (nat (py_int (of_int n * bs))))
             [0..<length (pylists h L @ cs)]) (pylists h L @ cs)))))"
    using res by simp
  show "pylists h' L = pylists h L @ map (\<lambda>k. Suc (nxt h + 2 * k)) [0..<length (pylists h L)]"
    using ne r fr by (simp add: h')
  show "length (pylists h' r) = min (nat n) (2 * length (pylists h L))" if "0 \<le> n"
    using that r fr by (simp add: h' py_slice_to_def)
qed






lemma mutate_parent_result:
  assumes "same_shape (arrays h (position (objs h agent))) S"
    and "agent < nxt h" and "position (objs h agent) < nxt h"
  shows "\<exists>a h' g'. mutate_parent agent f S h g = Inr (a, h', g')
     \<and> arrays h' (position (objs h' a)) = child_array agent S h g
     \<and> fit (objs h' a) = f (arrays h' (position (objs h' a)))
     \<and> lb (objs h' a) = lb (objs h agent) \<and> ub (objs h' a) = ub (objs h agent)
     \<and> a \<noteq> agent \<and> position (objs h' a) \<noteq> position (objs h agent)
     \<and> objs h' agent = objs h agent
     \<and> arrays h' (position (objs h agent)) = arrays h (position (objs h agent))
     \<and> (\<forall>b<nxt h. objs h' b = objs h b \<and> arrays h' b = arrays h b)
     \<and> pylists h' = pylists h
     \<and> g' = g\<lparr>drawn := Suc (drawn g)\<rparr>"
  using assms by (simp add: mutate_parent_eq)

lemma example_valid: "valid_population example_heap (pylists example_heap 6) example_strategy"
  by (simp add: valid_population_def example_heap_def example_agent_def example_strategy_def
      same_shape_def less_Suc_eq eval_nat_numeral)






text \<open>
  C3.  For a population of \<open>n_agents\<close> agents and a strategy array valid for it,
  \<open>update\<close> returns, the returned list has exactly \<open>n_agents\<close> agents, and the pool,
  the caller's list after the call, has twice as many.
\<close>

theorem EP_update_returns_n_agents:
  assumes "valid_population h (pylists h L) S" and "L < nxt h"
    and "n = int (length (pylists h L))"
  shows "\<exists>r S' h' g'. EP_update bs cr L n f S h g = Inr (r, S', h', g')
           \<and> length (pylists h' r) = nat n
           \<and> length (pylists h' L) = 2 * nat n"
proof -
  from EP_update_succeeds[OF assms(1), of bs cr n f g] obtain r S' h' g' where
    e: "EP_update bs cr L n f S h g = Inr (r, S', h', g')" by blast
  have "length (pylists h' r) = nat n"
    using EP_update_lists(3)[OF e assms(2)] assms(3) by simp
  moreover have "length (pylists h' L) = 2 * nat n"
    using EP_update_lists(1)[OF e assms(2)] assms(3) by simp
  ultimately show ?thesis using e by blast
qed

theorem EP_update_returns_n_agents_witness:
  "case EP_update 1 (1/20) 6 2 sphere example_strategy example_heap example_rng of
     Inl e \<Rightarrow> False
   | Inr (r, S', h', g') \<Rightarrow> length (pylists h' r) = 2 \<and> length (pylists h' 6) = 4"
proof -
  have pl: "pylists example_heap 6 = [3, 4]" and L: "6 < nxt example_heap"
    by (simp_all add: example_heap_def)
  have n: "(2::int) = int (length (pylists example_heap 6))" by (simp add: pl)
  from EP_update_returns_n_agents[OF example_valid L n, of 1 "1/20" sphere example_rng]
  show ?thesis by auto
qed

text \<open>
  C10.  When \<open>update\<close> returns, the list object the caller passed holds the parents
  followed by the children, newly allocated agents, so twice its length before the call;
  the returned list is another object, and has \<open>n_agents\<close> agents when \<open>n_agents\<close> is
  the length of the population.
\<close>

theorem EP_update_extends_argument_list:
  assumes "EP_update bs cr L n f S h g = Inr (r, S', h', g')" and "L < nxt h"
  shows "pylists h' L = pylists h L @ map (\<lambda>k. Suc (nxt h + 2 * k)) [0..<length (pylists h L)]
       \<and> length (pylists h' L) = 2 * length (pylists h L)
       \<and> r \<noteq> L
       \<and> (n = int (length (pylists h L)) \<longrightarrow> length (pylists h' r) = length (pylists h L))"
proof -
  note l = EP_update_lists[OF assms]
  have "r \<noteq> L" using l(2) assms(2) by simp
  moreover have "length (pylists h' r) = length (pylists h L)" if "n = int (length (pylists h L))"
    using l(3) that by simp
  ultimately show ?thesis using l(1) by simp
qed

theorem EP_update_extends_argument_list_witness:
  "case EP_update 1 (1/20) 6 2 sphere example_strategy example_heap example_rng of
     Inl e \<Rightarrow> False
   | Inr (r, S', h', g') \<Rightarrow> pylists h' 6 = [3, 4, 8, 10] \<and> r \<noteq> 6 \<and> length (pylists h' r) = 2"
proof -
  have pl: "pylists example_heap 6 = [3, 4]" and nx: "nxt example_heap = 7"
    by (simp_all add: example_heap_def)
  have L: "6 < nxt example_heap" by (simp add: nx)
  from EP_update_succeeds[OF example_valid, of 1 "1/20" 2 sphere example_rng]
  obtain r S' h' g' where
    e: "EP_update 1 (1/20) 6 2 sphere example_strategy example_heap example_rng = Inr (r, S', h', g')"
    by blast
  note t = EP_update_extends_argument_list[OF e L, unfolded pl nx]
  have "pylists h' 6 = [3, 4, 8, 10]" using t by simp
  moreover have "r \<noteq> 6" using t by simp
  moreover have "length (pylists h' r) = 2" using t by simp
  ultimately show ?thesis by (simp add: e)
qed

text \<open>
  C7 (amended).  For a parent whose position has the strategy's shape, \<open>_mutate_parent\<close>
  returns a child that is a new agent with a new position array: the parent's position
  plus the strategy multiplied by one Gaussian draw, the same for every element, clipped
  to the parent's bounds; the child's fitness is the objective at that position; the
  parent, its array and every other allocated object are left as they were, and the
  generator has handed out one sample.
\<close>

theorem mutate_parent_child:
  assumes "same_shape (arrays h (position (objs h agent))) S"
    and "agent < nxt h" and "position (objs h agent) < nxt h"
  shows "\<exists>a h' g'. mutate_parent agent f S h g = Inr (a, h', g')
     \<and> arrays h' (position (objs h' a)) =
         clip_rows (np_add (arrays h (position (objs h agent))) (np_scale (gauss g (drawn g)) S))
           (lb (objs h agent)) (ub (objs h agent))
     \<and> fit (objs h' a) = f (arrays h' (position (objs h' a)))
     \<and> lb (objs h' a) = lb (objs h agent) \<and> ub (objs h' a) = ub (objs h agent)
     \<and> a \<noteq> agent \<and> position (objs h' a) \<noteq> position (objs h agent)
     \<and> objs h' agent = objs h agent
     \<and> arrays h' (position (objs h agent)) = arrays h (position (objs h agent))
     \<and> (\<forall>b<nxt h. objs h' b = objs h b \<and> arrays h' b = arrays h b)
     \<and> pylists h' = pylists h
     \<and> g' = g\<lparr>drawn := Suc (drawn g)\<rparr>"
  using mutate_parent_result[OF assms, of f g] by (simp add: child_array_def)

theorem mutate_parent_child_witness:
  "case mutate_parent 3 sphere [[1]] example_heap example_rng of
     Inl e \<Rightarrow> False
   | Inr (a, h', g') \<Rightarrow>
       arrays h' (position (objs h' a)) = [[4]] \<and> fit (objs h' a) = 16
     \<and> arrays h' (position (objs h' 3)) = [[3]] \<and> fit (objs h' 3) = 100 \<and> drawn g' = 1"
proof -
  have p: "position (objs example_heap 3) = 0" "arrays example_heap 0 = [[3]]"
    "lb (objs example_heap 3) = [-10]" "ub (objs example_heap 3) = [10]"
    "fit (objs example_heap 3) = 100" "nxt example_heap = 7"
    by (simp_all add: example_heap_def example_agent_def)
  have g: "drawn example_rng = 0" "gauss example_rng 0 = 1"
    by (simp_all add: example_rng_def)
  have sh: "same_shape (arrays example_heap (position (objs example_heap 3))) [[1]]"
    by (simp add: p same_shape_def)
  have a: "3 < nxt example_heap" "position (objs example_heap 3) < nxt example_heap"
    by (simp_all add: p)
  from mutate_parent_child[OF sh a, of sphere example_rng, unfolded p g]
  obtain a h' g' where m: "mutate_parent 3 sphere [[1]] example_heap example_rng = Inr (a, h', g')"
    and c: "arrays h' (position (objs h' a)) = clip_rows (np_add [[3]] (np_scale 1 [[1]])) [-10] [10]"
    and f: "fit (objs h' a) = sphere (arrays h' (position (objs h' a)))"
    and o: "objs h' 3 = objs example_heap 3" "arrays h' 0 = [[3]]"
    and d: "g' = example_rng\<lparr>drawn := Suc 0\<rparr>"
    by blast
  have c': "arrays h' (position (objs h' a)) = [[4]]"
    unfolding c by (simp add: clip_rows_def np_add_def np_scale_def np_clip_def)
  have "fit (objs h' a) = 16" unfolding f c' by (simp add: sphere_def)
  then show ?thesis using c' o d by (simp add: m p)
qed

text \<open>
  The claim as written, a draw of its own for every element, fails: with the samples
  1, 2, ... and the strategy \<open>[[1, 1]]\<close> the source moves both elements of \<open>[[0, 0]]\<close>
  by the first sample, where a mutation that draws per element moves the second by
  the second sample.
\<close>

theorem mutate_parent_one_draw_counterexample:
  "(case mutate_parent 1 sphere [[1, 1]] example_pair_heap example_rng of
      Inl e \<Rightarrow> []
    | Inr (a, h', g') \<Rightarrow> arrays h' (position (objs h' a))) = [[1, 1]]
 \<and> (case mutate_parent_per_element 1 sphere [[1, 1]] example_pair_heap example_rng of
      Inl e \<Rightarrow> []
    | Inr (a, h', g') \<Rightarrow> arrays h' (position (objs h' a))) = [[1, 2]]"
  by (simp add: mutate_parent_eq child_array_def mutate_parent_per_element_def
      deepcopy_agent_def deepcopy_array_def agent_clip_by_bound_def set_fit_def Let_def
      generate_gaussian_random_array_def ncols_def
      example_pair_heap_def example_agent_def example_rng_def
      same_shape_def clip_rows_def np_add_def np_scale_def np_mul_def np_clip_def)

section \<open>Properties of EP.run\<close>

lemma call_undefined_method_raises:
  "\<exists>e. call_undefined_method self name args = Inl e"
  by (simp add: call_undefined_method_def split: option.splits)

text \<open>
  C6.  No call of \<open>EP.run\<close> returns a History: the initial evaluation is the call
  \<open>self._evaluate(...)\<close>, and no class of an EP instance defines \<open>_evaluate\<close> (nor
  \<open>_update\<close>, which the loop calls).  On an EP built from no parameters and the small
  space the run raises \<open>AttributeError\<close>.
\<close>

theorem EP_run_raises:
  "(\<exists>e. EP_run self space function flag hook h g = Inl e)
 \<and> \<not> has_class_attribute EP ''_evaluate'' \<and> \<not> has_class_attribute EP ''_update''
 \<and> and_then (new_EP PyNone) (\<lambda>ep. EP_run ep example_space sphere False PyNone example_heap example_rng)
     = Inl AttributeError"
proof -
  have "\<exists>e. (call_undefined_method self ''_evaluate'' (space, function, hook, h) :: error + heap)
          = Inl e"
    by (rule call_undefined_method_raises)
  then have "\<exists>e. EP_run self space function flag hook h g = Inl e"
    by (auto simp: EP_run_def and_then_def split: sum.splits)
  moreover have "\<not> has_class_attribute EP ''_evaluate''" "\<not> has_class_attribute EP ''_update''"
    by (simp_all add: has_class_attribute_def)
  moreover have "and_then (new_EP PyNone)
       (\<lambda>ep. EP_run ep example_space sphere False PyNone example_heap example_rng) = Inl AttributeError"
  proof -
    obtain ep where ep: "new_EP PyNone = Inr ep" and a: "attrs ep ''_evaluate'' = None"
      by (simp add: new_EP_def EP_init_def Optimizer_init_def and_then_def new_object_def
          algorithm_setter_def params_setter_def built_setter_def bout_size_setter_def
          clip_ratio_setter_def build_def write_attr_def algorithm_def built_def read_attr_def)
    have i: "\<exists>strategy g1. init_strategy example_space example_heap 0 2 [[[0]], [[0]]] example_rng
               = Inr (strategy, g1)"
      by (simp add: eval_nat_numeral init_row_def generate_uniform_random_number_def and_then_def
          example_space_def example_heap_def example_agent_def example_rng_def Let_def)
    have s: "nat (n_agents example_space) = 2" "nat (n_variables example_space) = 1"
      "nat (n_dimensions example_space) = 1"
      by (simp_all add: example_space_def)
    have r: "replicate 2 (replicate 1 (replicate 1 (0::real))) = [[[0]], [[0]]]"
      by (simp add: eval_nat_numeral)
    have "EP_run ep example_space sphere False PyNone example_heap example_rng = Inl AttributeError"
      using i a unfolding EP_run_def s r
      by (auto simp: and_then_def call_undefined_method_def example_space_def)
    then show ?thesis by (simp add: ep and_then_def)
  qed
  ultimately show ?thesis by simp
qed

section \<open>The best fitness over a run\<close>

lemma evaluate_agent_basic:
  "pylists (evaluate_agent f now best h agent) = pylists h
 \<and> nxt h \<le> nxt (evaluate_agent f now best h agent)"
  by (simp add: evaluate_agent_def Let_def set_fit_def set_position_def set_ts_def
      deepcopy_array_def)

lemma evaluate_loop_basic:
  "pylists (evaluate_loop f clock best i as h) = pylists h
 \<and> nxt h \<le> nxt (evaluate_loop f clock best i as h)"
proof (induction as arbitrary: i h)
  case Nil
  then show ?case by simp
next
  case (Cons x xs)
  show ?case
    using Cons.IH[of "Suc i" "evaluate_agent f (clock i) best h x"]
      evaluate_agent_basic[of f "clock i" best h x]
    by simp
qed

lemma clip_fold_frame:
  "objs (fold agent_clip_by_bound as h) = objs h
 \<and> pylists (fold agent_clip_by_bound as h) = pylists h
 \<and> nxt (fold agent_clip_by_bound as h) = nxt h"
  by (induction as arbitrary: h) (simp_all add: agent_clip_by_bound_def)

lemma space_clip_by_bound_frame:
  "objs (space_clip_by_bound space h) = objs h
 \<and> pylists (space_clip_by_bound space h) = pylists h
 \<and> nxt (space_clip_by_bound space h) = nxt h"
  by (simp add: space_clip_by_bound_def clip_fold_frame)

lemma set_py_slice_to: "set (py_slice_to n xs) \<subseteq> set xs"
  by (auto simp: py_slice_to_def dest: in_set_takeD)

lemma EP_update_frame:
  assumes e: "EP_update bs cr L n f S h g = Inr (r, S', h', g')"
  shows "(\<forall>b<nxt h. objs h' b = objs h b)
       \<and> nxt h \<le> r \<and> nxt h' = Suc r
       \<and> (\<forall>a\<in>set (pylists h' r). a \<in> set (pylists h L) \<or> nxt h < a)"
proof -
  from EP_update_Inr_D[OF e] obtain cs S1 h1 g1 where
    ml: "mutate_loop cr f 0 (pylists h L) S h g = Inr (cs, S1, h1, g1)" by blast
  note fr = mutate_loop_frame[OF ml]
  define P where "P = pylists h L @ cs"
  define K where "K = nat (py_int (of_int n * bs))"
  define W where "W = map (\<lambda>j. wins_from h1 P (P ! j) g1 (drawn g1 + j * K) K) [0..<length P]"
  have res: "Inr (r, S', h', g') =
           Inr (nxt h1, S1,
                h1\<lparr>pylists := (pylists h1)(L := P,
                       nxt h1 := py_slice_to n (map snd (py_sorted_reverse (zip W P)))),
                   nxt := Suc (nxt h1)\<rparr>,
                g1\<lparr>drawn := drawn g1 + length P * K\<rparr>)"
    using EP_update_result[OF ml, of bs n] by (simp add: e P_def K_def W_def)
  then have r: "r = nxt h1"
    and h': "h' = h1\<lparr>pylists := (pylists h1)(L := P,
                       nxt h1 := py_slice_to n (map snd (py_sorted_reverse (zip W P)))),
                   nxt := Suc (nxt h1)\<rparr>"
    by simp_all
  have 1: "\<forall>b<nxt h. objs h' b = objs h b" using fr by (simp add: h')
  have 2: "nxt h \<le> r" "nxt h' = Suc r" using fr by (simp_all add: r h')
  have "pylists h' r = py_slice_to n (map snd (py_sorted_reverse (zip W P)))"
    by (simp add: h' r)
  then have "set (pylists h' r) \<subseteq> set (map snd (py_sorted_reverse (zip W P)))"
    by (simp only: set_py_slice_to)
  also have "\<dots> \<subseteq> set P"
    by (auto simp: py_sorted_reverse_def dest: set_zip_rightD)
  finally have sub: "set (pylists h' r) \<subseteq> set P" .
  have "\<forall>a\<in>set (pylists h' r). a \<in> set (pylists h L) \<or> nxt h < a"
  proof
    fix a assume "a \<in> set (pylists h' r)"
    then have "a \<in> set (pylists h L) \<or> a \<in> set cs" using sub by (auto simp: P_def)
    moreover have "nxt h < c" if "c \<in> set cs" for c using that fr by auto
    ultimately show "a \<in> set (pylists h L) \<or> nxt h < a" by blast
  qed
  then show ?thesis using 1 2 by blast
qed


lemma recorded_best_fits_dump:
  "recorded_best_fits (dump h L b hist) = recorded_best_fits hist @ [fit (objs h b)]"
  by (simp add: recorded_best_fits_def dump_def)

lemma run_iterations_fits:
  assumes "run_iterations bs cr space f clock t S hist h g = Inr (hist', space', S', h', g')"
    and "best_agent space < nxt h"
    and "best_agent space \<notin> set (pylists h (agents space))"
  shows "\<exists>new. recorded_best_fits hist' = recorded_best_fits hist @ new \<and> length new = t
           \<and> sorted_wrt (\<lambda>x y. y \<le> x) new
           \<and> (\<forall>x\<in>set new. x \<le> fit (objs h (best_agent space)))
           \<and> fit (objs h' (best_agent space)) \<le> fit (objs h (best_agent space))
           \<and> best_agent space' = best_agent space"
  using assms
proof (induction t arbitrary: space S hist h g)
  case 0
  then show ?case by simp
next
  case (Suc t)
  let ?b = "best_agent space"
  from Suc.prems(1) obtain r S1 h1 g1 where
    e: "EP_update bs cr (agents space) (n_agents space) f S h g = Inr (r, S1, h1, g1)"
    by (cases "EP_update bs cr (agents space) (n_agents space) f S h g")
      (auto simp: and_then_def)
  define space1 where "space1 = space\<lparr>agents := r\<rparr>"
  define h2 where "h2 = space_clip_by_bound space1 h1"
  define h3 where "h3 = evaluate space1 f (clock t) h2"
  define hist1 where "hist1 = dump h3 (agents space1) (best_agent space1) hist"
  have rec: "run_iterations bs cr space1 f clock t S1 hist1 h3 g1 = Inr (hist', space', S', h', g')"
    using Suc.prems(1) by (simp add: e and_then_def Let_def space1_def h2_def h3_def hist1_def)
  note uf = EP_update_frame[OF e]
  note cf = space_clip_by_bound_frame[of space1 h1, folded h2_def]
  have b1: "best_agent space1 = ?b" and a1: "agents space1 = r" by (simp_all add: space1_def)
  have o1: "objs h1 ?b = objs h ?b" using uf Suc.prems(2) by simp
  have sep2: "?b \<notin> set (pylists h2 r)"
  proof
    assume "?b \<in> set (pylists h2 r)"
    then have "?b \<in> set (pylists h1 r)" using cf by simp
    then have "?b \<in> set (pylists h (agents space)) \<or> nxt h < ?b" using uf by blast
    then show False using Suc.prems(2,3) by auto
  qed
  have ev: "pylists h3 = pylists h2" "nxt h2 \<le> nxt h3"
    using evaluate_loop_basic[of f "clock t" ?b 0 "pylists h2 r" h2]
    by (simp_all add: h3_def evaluate_def b1 a1)
  have le3: "fit (objs h3 ?b) \<le> fit (objs h ?b)"
  proof -
    have "fit (objs h3 ?b) \<le> fit (objs h2 ?b)"
      unfolding h3_def evaluate_def b1 a1 by (rule evaluate_loop_best_le[OF sep2])
    then show ?thesis using cf o1 by simp
  qed
  have n3: "best_agent space1 < nxt h3" using uf cf ev Suc.prems(2) by (simp add: b1)
  have s3: "best_agent space1 \<notin> set (pylists h3 (agents space1))"
    using sep2 ev by (simp add: b1 a1)
  from Suc.IH[OF rec n3 s3] obtain new where
    new: "recorded_best_fits hist' = recorded_best_fits hist1 @ new" "length new = t"
      "sorted_wrt (\<lambda>x y. y \<le> x) new" "\<forall>x\<in>set new. x \<le> fit (objs h3 ?b)"
      "fit (objs h' ?b) \<le> fit (objs h3 ?b)" "best_agent space' = ?b"
    by (auto simp: b1)
  have h1': "recorded_best_fits hist1 = recorded_best_fits hist @ [fit (objs h3 ?b)]"
    by (simp add: hist1_def recorded_best_fits_dump b1)
  have "recorded_best_fits hist' = recorded_best_fits hist @ (fit (objs h3 ?b) # new)"
    using new(1) h1' by simp
  moreover have "length (fit (objs h3 ?b) # new) = Suc t" using new(2) by simp
  moreover have "sorted_wrt (\<lambda>x y. y \<le> x) (fit (objs h3 ?b) # new)" using new(3,4) by simp
  moreover have "\<forall>x\<in>set (fit (objs h3 ?b) # new). x \<le> fit (objs h ?b)"
    using new(4) le3 by auto
  moreover have "fit (objs h' ?b) \<le> fit (objs h ?b)" using new(5) le3 by simp
  ultimately show ?case using new(6) by blast
qed

lemma run_pipeline_fits:
  assumes "run_pipeline bs cr space f flag clock h g = Inr (hist, space', S', h', g')"
    and "best_agent space < nxt h"
    and "best_agent space \<notin> set (pylists h (agents space))"
  shows "length (recorded_best_fits hist) = nat (n_iterations space)
       \<and> sorted_wrt (\<lambda>x y. y \<le> x) (recorded_best_fits hist)
       \<and> (\<forall>x\<in>set (recorded_best_fits hist). x \<le> fit (objs h (best_agent space)))
       \<and> fit (objs h' (best_agent space)) \<le> fit (objs h (best_agent space))"
proof -
  let ?b = "best_agent space"
  let ?n = "nat (n_iterations space)"
  define h1 where "h1 = evaluate space f (clock ?n) h"
  from assms(1) obtain S g1 where
    rec: "run_iterations bs cr space f clock ?n S (History flag) h1 g1 = Inr (hist, space', S', h', g')"
    by (auto simp: run_pipeline_def and_then_def Let_def h1_def split: if_splits sum.splits)
  have ev: "pylists h1 = pylists h" "nxt h \<le> nxt h1"
    using evaluate_loop_basic[of f "clock ?n" ?b 0 "pylists h (agents space)" h]
    by (simp_all add: h1_def evaluate_def)
  have le1: "fit (objs h1 ?b) \<le> fit (objs h ?b)"
    unfolding h1_def evaluate_def by (rule evaluate_loop_best_le[OF assms(3)])
  have n1: "?b < nxt h1" using assms(2) ev by simp
  have s1: "?b \<notin> set (pylists h1 (agents space))" using assms(3) ev by simp
  from run_iterations_fits[OF rec n1 s1] obtain new where
    new: "recorded_best_fits hist = recorded_best_fits (History flag) @ new" "length new = ?n"
      "sorted_wrt (\<lambda>x y. y \<le> x) new" "\<forall>x\<in>set new. x \<le> fit (objs h1 ?b)"
      "fit (objs h' ?b) \<le> fit (objs h1 ?b)"
    by blast
  have "recorded_best_fits hist = new" using new(1) by (simp add: recorded_best_fits_def History_def)
  then show ?thesis using new le1 by auto
qed


lemma evaluate_valid_population:
  assumes v: "valid_population h (pylists h (agents space)) S"
    and sep: "best_agent space \<notin> set (pylists h (agents space))"
  shows "valid_population (evaluate space f c h) (pylists (evaluate space f c h) (agents space)) S"
proof -
  let ?as = "pylists h (agents space)"
  have alloc: "\<forall>a\<in>set ?as. position (objs h a) < nxt h"
    using v by (simp add: valid_population_def)
  note fr = evaluate_loop_frame[OF sep alloc, of f c 0, folded evaluate_def]
  have pl: "pylists (evaluate space f c h) (agents space) = ?as" using fr by simp
  have ob: "position (objs (evaluate space f c h) a) = position (objs h a)
          \<and> lb (objs (evaluate space f c h) a) = lb (objs h a)
          \<and> ub (objs (evaluate space f c h) a) = ub (objs h a)
          \<and> arrays (evaluate space f c h) (position (objs h a)) = arrays h (position (objs h a))"
    if "a \<in> set ?as" for a
  proof -
    have "a \<noteq> best_agent space" using that sep by auto
    moreover have "position (objs h a) < nxt h" using that alloc by simp
    ultimately show ?thesis using fr by simp
  qed
  have nx: "nxt h \<le> nxt (evaluate space f c h)" using fr by simp
  show ?thesis
    unfolding pl valid_population_def
  proof (intro conjI ballI allI impI)
    fix a assume a: "a \<in> set ?as"
    then have "a < nxt h" "position (objs h a) < nxt h"
      using v by (simp_all add: valid_population_def)
    then show "a < nxt (evaluate space f c h)"
      "position (objs (evaluate space f c h) a) < nxt (evaluate space f c h)"
      using nx ob[OF a] by simp_all
  next
    show "length ?as \<le> length S" using v by (simp add: valid_population_def)
  next
    fix j assume j: "j < length ?as"
    then have m: "?as ! j \<in> set ?as" by simp
    have "same_shape (arrays h (position (objs h (?as ! j)))) (S ! j)
        \<and> min (length (lb (objs h (?as ! j)))) (length (ub (objs h (?as ! j)))) \<le> length (S ! j)"
      using v j by (simp add: valid_population_def)
    then show "same_shape (arrays (evaluate space f c h)
                 (position (objs (evaluate space f c h) (?as ! j)))) (S ! j)"
      "min (length (lb (objs (evaluate space f c h) (?as ! j))))
           (length (ub (objs (evaluate space f c h) (?as ! j)))) \<le> length (S ! j)"
      using ob[OF m] by simp_all
  qed
qed

lemma run_one_iteration_returns:
  assumes "valid_population h (pylists h (agents space)) S"
  shows "\<exists>res. run_iterations bs cr space f clock (Suc 0) S hist h g = Inr res"
proof -
  from EP_update_succeeds[OF assms, of bs cr "n_agents space" f g] obtain r S1 h1 g1 where
    "EP_update bs cr (agents space) (n_agents space) f S h g = Inr (r, S1, h1, g1)" by blast
  then show ?thesis by (simp add: and_then_def Let_def)
qed

lemma example_init_strategy:
  "init_strategy example_space example_heap 0 2 [[[0]], [[0]]] example_rng
     = Inr ([[[1/2]], [[1/2]]], example_rng\<lparr>drawn := 2\<rparr>)"
  by (simp add: eval_nat_numeral init_row_def generate_uniform_random_number_def and_then_def
      example_space_def example_heap_def example_agent_def example_rng_def Let_def)

lemma example_valid_half:
  "valid_population example_heap (pylists example_heap (agents example_space)) [[[1/2]], [[1/2]]]"
  by (simp add: valid_population_def example_heap_def example_agent_def example_space_def
      same_shape_def less_Suc_eq eval_nat_numeral)

lemma example_run_returns:
  "\<exists>res. run_pipeline 1 (1/20) example_space sphere False (\<lambda>t i. 0) example_heap example_rng
     = Inr res"
proof -
  have sep: "best_agent example_space \<notin> set (pylists example_heap (agents example_space))"
    by (simp add: example_space_def example_heap_def)
  have s: "nat (n_agents example_space) = 2" "nat (n_variables example_space) = 1"
    "nat (n_dimensions example_space) = 1" "nat (n_iterations example_space) = Suc 0"
    "\<not> n_agents example_space < 0" "\<not> n_variables example_space < 0"
    "\<not> n_dimensions example_space < 0"
    by (simp_all add: example_space_def)
  have r: "replicate 2 (replicate 1 (replicate 1 (0::real))) = [[[0]], [[0]]]"
    by (simp add: eval_nat_numeral)
  define h1 where "h1 = evaluate example_space sphere (\<lambda>i. 0) example_heap"
  have rp: "run_pipeline 1 (1/20) example_space sphere False (\<lambda>t i. 0) example_heap example_rng
     = run_iterations 1 (1/20) example_space sphere (\<lambda>t i. 0) (Suc 0) [[[1/2]], [[1/2]]]
       (History False) h1 (example_rng\<lparr>drawn := 2\<rparr>)"
    unfolding run_pipeline_def s r example_init_strategy
    by (simp add: s and_then_def Let_def h1_def del: run_iterations.simps)
  have "valid_population h1 (pylists h1 (agents example_space)) [[[1/2]], [[1/2]]]"
    unfolding h1_def by (rule evaluate_valid_population[OF example_valid_half sep])
  from run_one_iteration_returns[OF this] show ?thesis unfolding rp .
qed

text \<open>
  C2.  The best agent's fitness never increases.  A call of \<open>evaluate\<close> on a space
  whose best agent is an object of its own leaves it at most what it was.  Over a run
  (the initial evaluation, then update, clip, evaluate and record in every iteration) the
  update and the clipping leave the best agent as it is and keep it out of the
  population, so the History has one entry per iteration and the best fitnesses it
  records are non-increasing, none above the fitness before the run.
\<close>

theorem best_fit_non_increasing:
  "(best_agent space \<notin> set (pylists h (agents space))
      \<longrightarrow> fit (objs (evaluate space f clock1 h) (best_agent space))
            \<le> fit (objs h (best_agent space)))
 \<and> (run_pipeline bs cr space f flag clock h g = Inr (hist, space', S', h', g')
      \<and> best_agent space < nxt h
      \<and> best_agent space \<notin> set (pylists h (agents space))
      \<longrightarrow> length (recorded_best_fits hist) = nat (n_iterations space)
        \<and> sorted_wrt (\<lambda>x y. y \<le> x) (recorded_best_fits hist)
        \<and> (\<forall>x\<in>set (recorded_best_fits hist). x \<le> fit (objs h (best_agent space)))
        \<and> fit (objs h' (best_agent space)) \<le> fit (objs h (best_agent space)))"
proof -
  have A: "fit (objs (evaluate space f clock1 h) (best_agent space))
            \<le> fit (objs h (best_agent space))"
    if "best_agent space \<notin> set (pylists h (agents space))"
    unfolding evaluate_def using that by (rule evaluate_loop_best_le)
  show ?thesis
    using A run_pipeline_fits[of bs cr space f flag clock h g hist space' S' h' g'] by blast
qed

theorem best_fit_non_increasing_witness:
  "fit (objs (evaluate example_space sphere (\<lambda>i. 0) example_heap) (best_agent example_space)) \<le> 100
 \<and> (case run_pipeline 1 (1/20) example_space sphere False (\<lambda>t i. 0) example_heap example_rng of
       Inl e \<Rightarrow> False
     | Inr (hist, space', S', h', g') \<Rightarrow>
         length (recorded_best_fits hist) = 1
       \<and> sorted_wrt (\<lambda>x y. y \<le> x) (recorded_best_fits hist)
       \<and> hd (recorded_best_fits hist) \<le> 100
       \<and> fit (objs h' (best_agent example_space)) \<le> 100)"
proof -
  have sep: "best_agent example_space \<notin> set (pylists example_heap (agents example_space))"
    by (simp add: example_space_def example_heap_def)
  have nx: "best_agent example_space < nxt example_heap"
    by (simp add: example_space_def example_heap_def)
  have f0: "fit (objs example_heap (best_agent example_space)) = 100"
    by (simp add: example_space_def example_heap_def example_agent_def)
  have n1: "nat (n_iterations example_space) = 1" by (simp add: example_space_def)
  from example_run_returns obtain hist space' S' h' g' where
    e: "run_pipeline 1 (1/20) example_space sphere False (\<lambda>t i. 0) example_heap example_rng
          = Inr (hist, space', S', h', g')"
    by (metis prod_cases5)
  note t = best_fit_non_increasing[of example_space example_heap sphere "\<lambda>i. 0" 1 "1/20"
      False "\<lambda>t i. 0" example_rng hist space' S' h' g', unfolded f0 n1]
  have 1: "fit (objs (evaluate example_space sphere (\<lambda>i. 0) example_heap) (best_agent example_space)) \<le> 100"
    using t sep by blast
  have 2: "length (recorded_best_fits hist) = 1
        \<and> sorted_wrt (\<lambda>x y. y \<le> x) (recorded_best_fits hist)
        \<and> (\<forall>x\<in>set (recorded_best_fits hist). x \<le> 100)
        \<and> fit (objs h' (best_agent example_space)) \<le> 100"
    using t e nx sep by blast
  then have "recorded_best_fits hist \<noteq> []" by auto
  then have "hd (recorded_best_fits hist) \<le> 100" using 2 by simp
  then show ?thesis using 1 2 by (simp add: e)
qed

end
